theory Spec2Isabelle
  imports Complex_Main
begin

section \<open>Data model\<close>

text \<open>
  The scanner works on a Go \<open>string\<close>, an immutable byte sequence: here a \<open>string\<close>
  (a list of 8-bit \<open>char\<close>s). A position is a byte offset into it. The Go code walks raw
  pointers \<open>sp\<close> (cursor) and \<open>se\<close> (one past the last byte); the model keeps the offset
  \<open>sp - base\<close> as a \<open>nat\<close>, so \<open>se\<close> is \<open>length src\<close>, and a byte is only ever read at an
  offset below \<open>length src\<close>, as in the source. The position \<open>pos\<close> a caller passes is
  not negative, and offsets stay far below the range of Go's 64-bit \<open>int\<close>, so no offset
  arithmetic of the source wraps around.
\<close>

text \<open>
  Modelled from the spec: the error kinds of \<open>internal/types\<close> (the package is not among the
  sources). Every scanning function returns one Go \<open>int\<close> that is either a non-negative
  offset or the negation of an error kind; the model writes the negative code
  \<open>-int(types.ERR_X)\<close> as \<open>Inl ERR_X\<close> and the offset \<open>n\<close> as \<open>Inr n\<close>, so the source's
  test \<open>ret < 0\<close> is the test for \<open>Inl\<close>.
\<close>

datatype ParsingError = ERR_EOF | ERR_INVALID_CHAR | ERR_INVALID_NUMBER_FMT

type_synonym offset = "ParsingError + nat"

text \<open>
  Modelled from the spec: \<open>types.ValueType\<close> and \<open>types.JsonState\<close> (declared in
  \<open>internal/types\<close>). \<open>types.ValueType(ret)\<close> of a negative \<open>ret\<close> is the error tag
  \<open>V_ERR\<close>. A Go struct literal leaves the fields it does not name at zero.
\<close>

datatype ValueType =
  V_ERR ParsingError | V_NULL | V_TRUE | V_FALSE | V_ARRAY | V_OBJECT | V_STRING
  | V_DOUBLE | V_INTEGER

record JsonState =
  Vt :: ValueType
  Dv :: real
  Iv :: int
  Ep :: int

definition JsonState_Vt :: "ValueType \<Rightarrow> JsonState" where
  "JsonState_Vt vt = \<lparr>Vt = vt, Dv = 0, Iv = 0, Ep = 0\<rparr>"

datatype TokenState =
  Invalid | Null | True_tok | False_tok | Number | String_tok | Obj | Arr | EndObj | EndArr
  | Comma | Colon

abbreviation dquote :: char where "dquote \<equiv> CHR 0x22"
abbreviation backslash :: char where "backslash \<equiv> CHR 0x5C"

section \<open>Blank skipping\<close>

text \<open>
  Modelled from the spec: \<open>SkipBlank\<close> is called by \<open>Peek\<close>, \<open>SkipValue\<close> and \<open>DecodeValue\<close>
  but defined in a file that is not among the sources. The spec (4.1): it skips leading
  whitespace (space, tab, newline, carriage return) starting at \<open>pos\<close> and yields the
  post-whitespace position; on reaching end of input while skipping it yields the
  negative EOF code.
\<close>

definition isSpace :: "char \<Rightarrow> bool" where
  "isSpace c = (c = CHR '' '' \<or> c = CHR 0x09 \<or> c = CHR 0x0A \<or> c = CHR 0x0D)"

function SkipBlank :: "string \<Rightarrow> nat \<Rightarrow> offset" where
  "SkipBlank src pos =
     (if length src \<le> pos then Inl ERR_EOF
      else if isSpace (src ! pos) then SkipBlank src (pos + 1)
      else Inr pos)"
  by pat_completeness auto
termination
  by (relation "measure (\<lambda>(src, pos). length src - pos)") auto

declare SkipBlank.simps [simp del]

section \<open>Literal decoders\<close>

text \<open>\<open>src[pos:ret]\<close> with \<open>pos \<le> ret \<le> len(src)\<close>.\<close>

definition slice :: "string \<Rightarrow> nat \<Rightarrow> nat \<Rightarrow> string" where
  "slice src lo hi = take (hi - lo) (drop lo src)"

definition decodeNull :: "string \<Rightarrow> nat \<Rightarrow> offset" where
  "decodeNull src pos =
     (let ret = pos + 4 in
      if ret > length src then Inl ERR_EOF
      else if slice src pos ret = ''null'' then Inr ret
      else Inl ERR_INVALID_CHAR)"

definition decodeTrue :: "string \<Rightarrow> nat \<Rightarrow> offset" where
  "decodeTrue src pos =
     (let ret = pos + 4 in
      if ret > length src then Inl ERR_EOF
      else if slice src pos ret = ''true'' then Inr ret
      else Inl ERR_INVALID_CHAR)"

definition decodeFalse :: "string \<Rightarrow> nat \<Rightarrow> offset" where
  "decodeFalse src pos =
     (let ret = pos + 5 in
      if ret > length src then Inl ERR_EOF
      else if slice src pos ret = ''false'' then Inr ret
      else Inl ERR_INVALID_CHAR)"

section \<open>Number skipping\<close>

definition isDigit :: "char \<Rightarrow> bool" where
  "isDigit c = ((of_char (CHR ''0'') :: nat) \<le> of_char c \<and> (of_char c :: nat) \<le> of_char (CHR ''9''))"

text \<open>
  The \<open>for\<close> loop of \<open>skipNumber\<close>. It leaves with an error (a \<open>return\<close> inside the loop)
  or with the cursor and \<open>nextNeedDigit\<close>, the only flag read after the loop. The read of
  \<open>sp - 1\<close> happens only after a byte has been passed (\<open>nextNeedDigit\<close> is true at \<open>ss\<close>).
\<close>

function skipNumber_loop ::
  "string \<Rightarrow> nat \<Rightarrow> nat \<Rightarrow> bool \<Rightarrow> bool \<Rightarrow> bool \<Rightarrow> bool \<Rightarrow> ParsingError + (nat \<times> bool)" where
  "skipNumber_loop src ss sp pointer exponent lastIsDigit nextNeedDigit =
     (if sp < length src then
        (let c = src ! sp in
         if isDigit c then skipNumber_loop src ss (sp + 1) pointer exponent True False
         else if nextNeedDigit then Inl ERR_INVALID_CHAR
         else if c = CHR ''.'' then
           (if \<not> lastIsDigit \<or> pointer \<or> sp = ss then Inl ERR_INVALID_CHAR
            else skipNumber_loop src ss (sp + 1) True exponent False True)
         else if c = CHR ''e'' \<or> c = CHR ''E'' then
           (if \<not> lastIsDigit \<or> exponent then Inl ERR_INVALID_CHAR
            else if sp = length src - 1 then Inl ERR_EOF
            else skipNumber_loop src ss (sp + 1) pointer True False False)
         else if c = CHR ''-'' \<or> c = CHR ''+'' then
           (let prev = src ! (sp - 1) in
            if prev \<noteq> CHR ''e'' \<and> prev \<noteq> CHR ''E'' then Inl ERR_INVALID_CHAR
            else skipNumber_loop src ss (sp + 1) pointer exponent False True)
         else Inr (sp, nextNeedDigit))
      else Inr (sp, nextNeedDigit))"
  by pat_completeness auto
termination
  by (relation "measure (\<lambda>(src, ss, sp, p, e, l, n). length src - sp)") auto

declare skipNumber_loop.simps [simp del]

definition skipNumber :: "string \<Rightarrow> nat \<Rightarrow> offset" where
  "skipNumber src pos =
     (if length src \<le> pos then Inl ERR_EOF
      else
        (let sp = (if src ! pos = CHR ''-'' then pos + 1 else pos); ss = sp in
         case skipNumber_loop src ss sp False False False True of
           Inl e \<Rightarrow> Inl e
         | Inr (sp', nextNeedDigit) \<Rightarrow> if nextNeedDigit then Inl ERR_EOF else Inr sp'))"

section \<open>String skipping\<close>

text \<open>
  The loop of \<open>skipString\<close>: the cursor and \<open>ep\<close>, the offset of the first backslash or
  \<open>-1\<close>. A backslash moves the cursor two bytes on, possibly to \<open>se + 1\<close>.
\<close>

function skipString_loop :: "string \<Rightarrow> nat \<Rightarrow> int \<Rightarrow> nat \<times> int" where
  "skipString_loop src sp ep =
     (if sp < length src then
        (let c = src ! sp in
         if c = backslash then skipString_loop src (sp + 2) (if ep = -1 then int sp else ep)
         else if c = dquote then (sp + 1, ep)
         else skipString_loop src (sp + 1) ep)
      else (sp, ep))"
  by pat_completeness auto
termination
  by (relation "measure (\<lambda>(src, sp, ep). length src - sp)") auto

declare skipString_loop.simps [simp del]

definition skipString :: "string \<Rightarrow> nat \<Rightarrow> offset \<times> int" where
  "skipString src pos =
     (if pos + 1 \<ge> length src then (Inl ERR_EOF, -1)
      else if src ! pos \<noteq> dquote then (Inl ERR_INVALID_CHAR, -1)
      else
        (case skipString_loop src (pos + 1) (-1) of
           (sp, ep) \<Rightarrow> if sp > length src then (Inl ERR_EOF, -1) else (Inr sp, ep)))"

section \<open>Balanced pair skipping\<close>

text \<open>The loop of \<open>skipPair\<close>: the cursor and the nesting counter \<open>nbrace\<close> when it ends.\<close>

function skipPair_loop :: "string \<Rightarrow> char \<Rightarrow> char \<Rightarrow> nat \<Rightarrow> int \<Rightarrow> bool \<Rightarrow> nat \<times> int" where
  "skipPair_loop src lchar rchar sp nbrace inquote =
     (if sp < length src then
        (let c = src ! sp in
         if c = backslash then skipPair_loop src lchar rchar (sp + 2) nbrace inquote
         else if c = dquote then skipPair_loop src lchar rchar (sp + 1) nbrace (\<not> inquote)
         else if c = lchar then
           skipPair_loop src lchar rchar (sp + 1) (if \<not> inquote then nbrace + 1 else nbrace) inquote
         else if c = rchar then
           (if \<not> inquote then
              (if nbrace - 1 = 0 then (sp + 1, nbrace - 1)
               else skipPair_loop src lchar rchar (sp + 1) (nbrace - 1) inquote)
            else skipPair_loop src lchar rchar (sp + 1) nbrace inquote)
         else skipPair_loop src lchar rchar (sp + 1) nbrace inquote)
      else (sp, nbrace))"
  by pat_completeness auto
termination
  by (relation "measure (\<lambda>(src, l, r, sp, n, q). length src - sp)") auto

declare skipPair_loop.simps [simp del]

definition skipPair :: "string \<Rightarrow> nat \<Rightarrow> char \<Rightarrow> char \<Rightarrow> offset" where
  "skipPair src pos lchar rchar =
     (if pos + 1 \<ge> length src then Inl ERR_EOF
      else if src ! pos \<noteq> lchar then Inl ERR_INVALID_CHAR
      else
        (case skipPair_loop src lchar rchar (pos + 1) 1 False of
           (sp, nbrace) \<Rightarrow> if nbrace \<noteq> 0 then Inl ERR_INVALID_CHAR else Inr sp))"

section \<open>Number decoding\<close>

text \<open>
  \<open>strconv.ParseInt(s, 10, 64)\<close> of the Go standard library, which \<open>decodeInt64\<close> calls on
  the span it has scanned. The model follows the library's own steps for base 10 and
  64 bits: the empty string is a syntax error; one leading sign is picked off;
  \<open>ParseUint\<close> reads the digits into a \<open>uint64\<close> and stops at the first byte that is not a
  digit (syntax error) or at the first overflow (range error); the signed range is checked
  last. The \<open>uint64\<close> accumulator is a \<open>nat\<close> here with the overflow tests written out:
  below the cutoff \<open>n * 10\<close> fits 64 bits, and \<open>n * 10 + d\<close> wraps around exactly when
  it exceeds \<open>maxUint64\<close>. Only the \<open>Err\<close> field of the library's \<open>NumError\<close> is kept.
\<close>

datatype NumError = ErrSyntax | ErrRange

definition maxUint64 :: nat where
  "maxUint64 = 2 ^ 64 - 1"

definition digit_of :: "char \<Rightarrow> nat" where
  "digit_of c = of_char c - of_char (CHR ''0'')"

fun ParseUint_loop :: "nat \<Rightarrow> string \<Rightarrow> nat \<times> NumError option" where
  "ParseUint_loop n [] = (n, None)"
| "ParseUint_loop n (c # cs) =
     (if \<not> isDigit c then (0, Some ErrSyntax)
      else if n \<ge> maxUint64 div 10 + 1 then (maxUint64, Some ErrRange)
      else
        (let n1 = n * 10 + digit_of c in
         if n1 > maxUint64 then (maxUint64, Some ErrRange) else ParseUint_loop n1 cs))"

definition ParseUint :: "string \<Rightarrow> nat \<times> NumError option" where
  "ParseUint s = (if s = [] then (0, Some ErrSyntax) else ParseUint_loop 0 s)"

definition ParseInt :: "string \<Rightarrow> int \<times> NumError option" where
  "ParseInt s =
     (if s = [] then (0, Some ErrSyntax)
      else
        (let neg = (hd s = CHR ''-'');
             s' = (if hd s = CHR ''+'' \<or> hd s = CHR ''-'' then tl s else s)
         in case ParseUint s' of
              (un, err) \<Rightarrow>
                if err = Some ErrSyntax then (0, err)
                else if \<not> neg \<and> un \<ge> 2 ^ 63 then (2 ^ 63 - 1, Some ErrRange)
                else if neg \<and> un > 2 ^ 63 then (- (2 ^ 63), Some ErrRange)
                else (if neg then - int un else int un, None)))"

text \<open>The digit loop of \<open>decodeInt64\<close>: the cursor after the maximal run of digits.\<close>

function decodeInt64_loop :: "string \<Rightarrow> nat \<Rightarrow> nat" where
  "decodeInt64_loop src sp =
     (if sp < length src \<and> isDigit (src ! sp) then decodeInt64_loop src (sp + 1) else sp)"
  by pat_completeness auto
termination
  by (relation "measure (\<lambda>(src, sp). length src - sp)") auto

declare decodeInt64_loop.simps [simp del]

text \<open>\<open>decodeInt64\<close> returns \<open>(ret, v, err)\<close>; \<open>err\<close> is \<open>nil\<close> (\<open>None\<close>) or the library's error.\<close>

definition decodeInt64 :: "string \<Rightarrow> nat \<Rightarrow> offset \<times> int \<times> NumError option" where
  "decodeInt64 src pos =
     (if length src \<le> pos then (Inl ERR_EOF, 0, None)
      else
        (let sp = (if src ! pos = CHR ''-'' then pos + 1 else pos) in
         if length src \<le> sp then (Inl ERR_EOF, 0, None)
         else
           (let sp = decodeInt64_loop src sp in
            if sp < length src
               \<and> (src ! sp = CHR ''.'' \<or> src ! sp = CHR ''e'' \<or> src ! sp = CHR ''E'')
            then (Inl ERR_INVALID_NUMBER_FMT, 0, None)
            else
              (let ret = sp; vv = slice src pos ret in
               case ParseInt vv of
                 (v, None) \<Rightarrow> (Inr ret, v, None)
               | (v, Some e) \<Rightarrow>
                   if e = ErrRange then (Inr ret, 0, Some e)
                   else (Inl ERR_INVALID_CHAR, 0, Some e)))))"

definition isNumberChars :: "char \<Rightarrow> bool" where
  "isNumberChars c =
     (isDigit c \<or> c = CHR ''+'' \<or> c = CHR ''-'' \<or> c = CHR ''e'' \<or> c = CHR ''E'' \<or> c = CHR ''.'')"

function decodeFloat64_loop :: "string \<Rightarrow> nat \<Rightarrow> nat" where
  "decodeFloat64_loop src sp =
     (if sp < length src \<and> isNumberChars (src ! sp) then decodeFloat64_loop src (sp + 1) else sp)"
  by pat_completeness auto
termination
  by (relation "measure (\<lambda>(src, sp). length src - sp)") auto

declare decodeFloat64_loop.simps [simp del]

text \<open>
  \<open>strconv.ParseFloat(s, 64)\<close> of the Go standard library is a parameter \<open>ParseFloat\<close> of
  the model: it maps the scanned span to the parsed value and the library's error. A
  \<open>float64\<close> that \<open>decodeFloat64\<close> hands on is finite (on a range error it returns 0), so
  it is a \<open>real\<close> here.
\<close>

definition decodeFloat64 ::
  "(string \<Rightarrow> real \<times> NumError option) \<Rightarrow> string \<Rightarrow> nat \<Rightarrow> offset \<times> real \<times> NumError option" where
  "decodeFloat64 ParseFloat src pos =
     (if length src \<le> pos then (Inl ERR_EOF, 0, None)
      else
        (let sp = (if src ! pos = CHR ''-'' then pos + 1 else pos) in
         if sp = length src then (Inl ERR_EOF, 0, None)
         else
           (let sp = decodeFloat64_loop src sp; ret = sp; vv = slice src pos ret in
            case ParseFloat vv of
              (v, None) \<Rightarrow> (Inr ret, v, None)
            | (v, Some e) \<Rightarrow>
                if e = ErrRange then (Inr ret, 0, Some e)
                else (Inl ERR_INVALID_CHAR, 0, Some e))))"

section \<open>Token classification and value skipping\<close>

definition isNumberStart :: "char \<Rightarrow> bool" where
  "isNumberStart c = (c = CHR ''-'' \<or> c = CHR ''+'' \<or> c = CHR ''0'' \<or> c = CHR ''1''
     \<or> c = CHR ''2'' \<or> c = CHR ''3'' \<or> c = CHR ''4'' \<or> c = CHR ''5'' \<or> c = CHR ''6''
     \<or> c = CHR ''7'' \<or> c = CHR ''8'' \<or> c = CHR ''9'')"

definition Peek :: "string \<Rightarrow> nat \<Rightarrow> offset \<times> TokenState" where
  "Peek src pos =
     (case SkipBlank src pos of
        Inl e \<Rightarrow> (Inl e, Invalid)
      | Inr pos \<Rightarrow>
          (let c = src ! pos in
           if c = CHR ''{'' then (Inr pos, Obj)
           else if c = CHR ''['' then (Inr pos, Arr)
           else if c = CHR '','' then (Inr pos, Comma)
           else if c = CHR '':'' then (Inr pos, Colon)
           else if c = CHR '']'' then (Inr pos, EndArr)
           else if c = CHR ''}'' then (Inr pos, EndObj)
           else if c = CHR ''n'' then (Inr pos, Null)
           else if c = dquote then (Inr pos, String_tok)
           else if c = CHR ''t'' then (Inr pos, True_tok)
           else if c = CHR ''f'' then (Inr pos, False_tok)
           else if isNumberStart c then (Inr pos, Number)
           else (Inl ERR_INVALID_CHAR, Invalid)))"

text \<open>\<open>SkipValue\<close> returns \<open>(ret, start)\<close>; \<open>start\<close> is \<open>-1\<close> when blank skipping fails.\<close>

definition SkipValue :: "string \<Rightarrow> nat \<Rightarrow> offset \<times> int" where
  "SkipValue src pos =
     (case SkipBlank src pos of
        Inl e \<Rightarrow> (Inl e, -1)
      | Inr pos \<Rightarrow>
          (let c = src ! pos;
               ret =
                 (if c = CHR ''n'' then decodeNull src pos
                  else if c = dquote then fst (skipString src pos)
                  else if c = CHR ''{'' then skipPair src pos (CHR ''{'') (CHR ''}'')
                  else if c = CHR ''['' then skipPair src pos (CHR ''['') (CHR '']'')
                  else if c = CHR ''t'' then decodeTrue src pos
                  else if c = CHR ''f'' then decodeFalse src pos
                  else if isNumberStart c then skipNumber src pos
                  else Inl ERR_INVALID_CHAR)
           in (ret, int pos)))"

section \<open>Value decoding\<close>

definition DecodeValue ::
  "(string \<Rightarrow> real \<times> NumError option) \<Rightarrow> string \<Rightarrow> nat \<Rightarrow> offset \<times> JsonState" where
  "DecodeValue ParseFloat src pos =
     (case SkipBlank src pos of
        Inl e \<Rightarrow> (Inl e, JsonState_Vt (V_ERR e))
      | Inr pos \<Rightarrow>
          (let c = src ! pos in
           if c = CHR ''n'' then
             (case decodeNull src pos of
                Inl e \<Rightarrow> (Inl e, JsonState_Vt (V_ERR e))
              | Inr ret \<Rightarrow> (Inr ret, JsonState_Vt V_NULL))
           else if c = dquote then
             (case skipString src pos of
                (Inl e, ep) \<Rightarrow> (Inl e, JsonState_Vt (V_ERR e))
              | (Inr ret, ep) \<Rightarrow>
                  (Inr ret, \<lparr>Vt = V_STRING, Dv = 0, Iv = int (pos + 1), Ep = ep\<rparr>))
           else if c = CHR ''{'' then (Inr (pos + 1), JsonState_Vt V_OBJECT)
           else if c = CHR ''['' then (Inr (pos + 1), JsonState_Vt V_ARRAY)
           else if c = CHR ''t'' then
             (case decodeTrue src pos of
                Inl e \<Rightarrow> (Inl e, JsonState_Vt (V_ERR e))
              | Inr ret \<Rightarrow> (Inr ret, JsonState_Vt V_TRUE))
           else if c = CHR ''f'' then
             (case decodeFalse src pos of
                Inl e \<Rightarrow> (Inl e, JsonState_Vt (V_ERR e))
              | Inr ret \<Rightarrow> (Inr ret, JsonState_Vt V_FALSE))
           else if isNumberStart c then
             (case decodeInt64 src pos of
                (Inr ret, iv, err) \<Rightarrow>
                  (Inr ret, \<lparr>Vt = V_INTEGER, Dv = 0, Iv = iv, Ep = int pos\<rparr>)
              | (Inl e, iv, err) \<Rightarrow>
                  if e \<noteq> ERR_INVALID_NUMBER_FMT then (Inl e, JsonState_Vt (V_ERR e))
                  else
                    (case decodeFloat64 ParseFloat src pos of
                       (Inr ret, fv, err) \<Rightarrow>
                         (Inr ret, \<lparr>Vt = V_DOUBLE, Dv = fv, Iv = 0, Ep = int pos\<rparr>)
                     | (Inl e, fv, err) \<Rightarrow> (Inl e, JsonState_Vt (V_ERR e))))
           else (Inl ERR_INVALID_CHAR, JsonState_Vt (V_ERR ERR_INVALID_CHAR))))"

section \<open>Quoting\<close>

text \<open>
  The output buffer \<open>*buf\<close> is a Go slice: the bytes below its length, and its capacity.
  \<open>native.Quote\<close> (the accelerated escaper) and the runtime's \<open>growslice\<close> are outside
  the sources and are parameters of the model. \<open>Quote inp dn\<close> stands for
  \<open>native.Quote(sp, nb, dp, &dn, 0)\<close> on the unconsumed input \<open>inp\<close> with \<open>dn\<close> free bytes
  at \<open>dp\<close>: it yields the return value \<open>ret\<close> and the bytes it wrote, whose count is the
  new \<open>dn\<close>. \<open>growslice n\<close> is the capacity the runtime gives when \<open>n\<close> is asked for.
\<close>

record GoSlice =
  bytes :: string
  Cap :: nat

text \<open>\<open>append(*buf, c)\<close>: one more byte; the runtime reallocates when the slice is full.\<close>

definition append_byte :: "(nat \<Rightarrow> nat) \<Rightarrow> GoSlice \<Rightarrow> char \<Rightarrow> GoSlice" where
  "append_byte growslice b c =
     \<lparr>bytes = bytes b @ [c],
      Cap = (if length (bytes b) < Cap b then Cap b else growslice (length (bytes b) + 1))\<rparr>"

text \<open>
  The loop \<open>for nb > 0\<close> of \<open>quote\<close>. Whether it ends depends on what \<open>native.Quote\<close>
  returns, so the loop is a partial function: \<open>None\<close> when it runs forever. \<open>^ret\<close> is
  \<open>- ret - 1\<close>; advancing \<open>sp\<close> by it and lowering \<open>nb\<close> drops that many input bytes, and
  \<open>nb \<le> 0\<close> afterwards is the empty remainder.
\<close>

partial_function (option) quote_loop ::
  "(string \<Rightarrow> nat \<Rightarrow> int \<times> string) \<Rightarrow> (nat \<Rightarrow> nat) \<Rightarrow> string \<Rightarrow> GoSlice \<Rightarrow> GoSlice option" where
  "quote_loop Quote growslice inp b =
     (if length inp > 0 then
        (case Quote inp (Cap b - length (bytes b)) of
           (ret, out) \<Rightarrow>
             (let b' = b\<lparr>bytes := bytes b @ out\<rparr> in
              if ret \<ge> 0 then Some b'
              else quote_loop Quote growslice (drop (nat (- ret - 1)) inp)
                     (b'\<lparr>Cap := growslice (Cap b' * 2)\<rparr>)))
      else Some b)"

definition quote ::
  "(string \<Rightarrow> nat \<Rightarrow> int \<times> string) \<Rightarrow> (nat \<Rightarrow> nat) \<Rightarrow> GoSlice \<Rightarrow> string \<Rightarrow> GoSlice option" where
  "quote Quote growslice buf val =
     (let buf1 = append_byte growslice buf dquote;
          buf2 = (if length val = 0 then append_byte growslice buf1 dquote else buf1)
      in case quote_loop Quote growslice val buf2 of
           None \<Rightarrow> None
         | Some b \<Rightarrow> Some (append_byte growslice b dquote))"

section \<open>Specification side: the integer a digit run denotes\<close>

text \<open>The decimal value of a run of digits, most significant first.\<close>

definition digits_value :: "string \<Rightarrow> nat" where
  "digits_value ds = foldl (\<lambda>n c. n * 10 + digit_of c) 0 ds"

section \<open>Specification side: syntactically valid JSON values\<close>

text \<open>
  The grammar of JSON texts (RFC 8259, ECMA-404) as syntax trees that keep every choice
  the grammar leaves open (whitespace, the spelling of a character, the exponent marker),
  with \<open>render\<close> giving the text of a tree and \<open>wf\<close> the side conditions of the grammar.
  A syntactically valid JSON value is \<open>render_json v\<close> for a tree \<open>v\<close> with \<open>wf_json v\<close>.
\<close>

text \<open>
  A character of a string: an unescaped byte (not a quote, not a backslash, not a
  control character), a two-byte escape, or \<open>\u\<close> with four hex digits.
\<close>

datatype jchar = Plain char | Esc char | Uni char char char char

fun render_jchar :: "jchar \<Rightarrow> string" where
  "render_jchar (Plain c) = [c]"
| "render_jchar (Esc e) = [backslash, e]"
| "render_jchar (Uni a b c d) = [backslash, CHR ''u'', a, b, c, d]"

definition isHex :: "char \<Rightarrow> bool" where
  "isHex c = (c \<in> set ''0123456789abcdefABCDEF'')"

fun wf_jchar :: "jchar \<Rightarrow> bool" where
  "wf_jchar (Plain c) = (c \<noteq> dquote \<and> c \<noteq> backslash \<and> (32 :: nat) \<le> of_char c)"
| "wf_jchar (Esc e) = (e \<in> set [dquote, backslash, CHR ''/'', CHR ''b'', CHR ''f'', CHR ''n'', CHR ''r'', CHR ''t''])"
| "wf_jchar (Uni a b c d) = (isHex a \<and> isHex b \<and> isHex c \<and> isHex d)"

definition render_string :: "jchar list \<Rightarrow> string" where
  "render_string cs = dquote # concat (map render_jchar cs) @ [dquote]"

text \<open>
  A number: minus sign or not, the digits of the integer part, the digits of the
  fraction if there is one, and the exponent if there is one (its marker, its sign as
  written, its digits).
\<close>

datatype jnumber = JNumber bool string "string option" "(char \<times> string \<times> string) option"

fun render_number :: "jnumber \<Rightarrow> string" where
  "render_number (JNumber neg ds fr ex) =
     (if neg then ''-'' else []) @ ds
     @ (case fr of None \<Rightarrow> [] | Some fs \<Rightarrow> CHR ''.'' # fs)
     @ (case ex of None \<Rightarrow> [] | Some (e, sg, es) \<Rightarrow> e # sg @ es)"

definition wf_digits :: "string \<Rightarrow> bool" where
  "wf_digits ds = (ds \<noteq> [] \<and> list_all isDigit ds)"

fun wf_number :: "jnumber \<Rightarrow> bool" where
  "wf_number (JNumber neg ds fr ex) =
     (wf_digits ds \<and> (length ds = 1 \<or> hd ds \<noteq> CHR ''0'')
      \<and> (case fr of None \<Rightarrow> True | Some fs \<Rightarrow> wf_digits fs)
      \<and> (case ex of None \<Rightarrow> True
          | Some (e, sg, es) \<Rightarrow>
              (e = CHR ''e'' \<or> e = CHR ''E'') \<and> (sg = [] \<or> sg = ''+'' \<or> sg = ''-'')
              \<and> wf_digits es))"

text \<open>
  Values. An array is \<open>[ ws ]\<close> or \<open>[ elements ]\<close>, elements being one or more
  \<open>ws value ws\<close> separated by commas; an object is \<open>{ ws }\<close> or \<open>{ members }\<close>, members
  being one or more \<open>ws string ws : ws value ws\<close> separated by commas.
\<close>

datatype json =
  JNull | JTrue | JFalse | JNum jnumber | JStr "jchar list"
  | JArr0 string | JArr elements | JObj0 string | JObj members
and elements =
  Elem1 string json string | ElemN string json string elements
and members =
  Mem1 string "jchar list" string string json string
  | MemN string "jchar list" string string json string members

primrec render_json :: "json \<Rightarrow> string"
  and render_elements :: "elements \<Rightarrow> string"
  and render_members :: "members \<Rightarrow> string" where
  "render_json JNull = ''null''"
| "render_json JTrue = ''true''"
| "render_json JFalse = ''false''"
| "render_json (JNum n) = render_number n"
| "render_json (JStr cs) = render_string cs"
| "render_json (JArr0 ws) = CHR ''['' # ws @ '']''"
| "render_json (JArr es) = CHR ''['' # render_elements es @ '']''"
| "render_json (JObj0 ws) = CHR ''{'' # ws @ ''}''"
| "render_json (JObj ms) = CHR ''{'' # render_members ms @ ''}''"
| "render_elements (Elem1 w1 v w2) = w1 @ render_json v @ w2"
| "render_elements (ElemN w1 v w2 es) = w1 @ render_json v @ w2 @ CHR '','' # render_elements es"
| "render_members (Mem1 w1 k w2 w3 v w4) =
     w1 @ render_string k @ w2 @ CHR '':'' # w3 @ render_json v @ w4"
| "render_members (MemN w1 k w2 w3 v w4 ms) =
     w1 @ render_string k @ w2 @ CHR '':'' # w3 @ render_json v @ w4 @ CHR '','' # render_members ms"

primrec wf_json :: "json \<Rightarrow> bool"
  and wf_elements :: "elements \<Rightarrow> bool"
  and wf_members :: "members \<Rightarrow> bool" where
  "wf_json JNull = True"
| "wf_json JTrue = True"
| "wf_json JFalse = True"
| "wf_json (JNum n) = wf_number n"
| "wf_json (JStr cs) = list_all wf_jchar cs"
| "wf_json (JArr0 ws) = list_all isSpace ws"
| "wf_json (JArr es) = wf_elements es"
| "wf_json (JObj0 ws) = list_all isSpace ws"
| "wf_json (JObj ms) = wf_members ms"
| "wf_elements (Elem1 w1 v w2) = (list_all isSpace w1 \<and> wf_json v \<and> list_all isSpace w2)"
| "wf_elements (ElemN w1 v w2 es) =
     (list_all isSpace w1 \<and> wf_json v \<and> list_all isSpace w2 \<and> wf_elements es)"
| "wf_members (Mem1 w1 k w2 w3 v w4) =
     (list_all isSpace w1 \<and> list_all wf_jchar k \<and> list_all isSpace w2 \<and> list_all isSpace w3
      \<and> wf_json v \<and> list_all isSpace w4)"
| "wf_members (MemN w1 k w2 w3 v w4 ms) =
     (list_all isSpace w1 \<and> list_all wf_jchar k \<and> list_all isSpace w2 \<and> list_all isSpace w3
      \<and> wf_json v \<and> list_all isSpace w4 \<and> wf_members ms)"

text \<open>
  What may follow a value without being part of it: for a number, the next byte (if
  any) must not be one of the bytes numbers are written with, as in every JSON text
  (there a value is followed by whitespace, a comma, a closing bracket or brace, or the
  end of the text). The other values end with their own last byte.
\<close>

fun value_ends :: "json \<Rightarrow> string \<Rightarrow> bool" where
  "value_ends (JNum n) rest = (rest = [] \<or> \<not> isNumberChars (hd rest))"
| "value_ends v rest = True"

section \<open>Proof devices for the pair scanner\<close>

text \<open>
  The two delimiter pairs \<open>skipPair\<close> is called with, and the texts its loop passes over
  outside a quoted string without changing the (positive) nesting counter.
\<close>

definition brackets :: "char \<Rightarrow> char \<Rightarrow> bool" where
  "brackets l r = ((l = CHR ''{'' \<and> r = CHR ''}'') \<or> (l = CHR ''['' \<and> r = CHR '']''))"

definition passes :: "string \<Rightarrow> char \<Rightarrow> char \<Rightarrow> string \<Rightarrow> bool" where
  "passes src l r xs =
     (\<forall>sp rest n. drop sp src = xs @ rest \<longrightarrow> 0 < n \<longrightarrow>
        skipPair_loop src l r sp n False = skipPair_loop src l r (sp + length xs) n False)"

section \<open>Properties\<close>

text \<open>
  C7. \<open>skipNumber\<close> on \<open>1.2.3\<close> (a second decimal point) returns the InvalidChar code, and
  on \<open>1e\<close> (the exponent marker is the last input byte) the EOF code: two distinct error
  kinds.
\<close>

theorem skipNumber_rejects:
  "skipNumber ''1.2.3'' 0 = Inl ERR_INVALID_CHAR \<and> skipNumber ''1e'' 0 = Inl ERR_EOF
   \<and> ERR_INVALID_CHAR \<noteq> ERR_EOF"
  by code_simp

subsection \<open>Positions and blank skipping\<close>

lemma drop_ConsD: "drop n xs = y # ys \<Longrightarrow> n < length xs \<and> xs ! n = y \<and> drop (Suc n) xs = ys"
  by (metis Cons_nth_drop_Suc drop_all list.distinct(1) list.inject not_le)

lemma drop_append_ConsD:
  "drop pos src = ws @ c # rest \<Longrightarrow>
     pos + length ws < length src \<and> src ! (pos + length ws) = c
     \<and> drop (pos + length ws) src = c # rest"
proof -
  assume a: "drop pos src = ws @ c # rest"
  have "drop (pos + length ws) src = drop (length ws) (drop pos src)"
    by (simp add: add.commute)
  with a have "drop (pos + length ws) src = c # rest" by simp
  then show ?thesis using drop_ConsD [of "pos + length ws" src c rest] by simp
qed

lemma SkipBlank_drop:
  "drop pos src = ws @ c # rest \<Longrightarrow> list_all isSpace ws \<Longrightarrow> \<not> isSpace c
   \<Longrightarrow> SkipBlank src pos = Inr (pos + length ws)"
proof (induction ws arbitrary: pos)
  case Nil
  then show ?case using drop_ConsD [of pos src c rest] by (simp add: SkipBlank.simps)
next
  case (Cons w ws)
  from Cons.prems(1) have d: "pos < length src" "src ! pos = w" "drop (Suc pos) src = ws @ c # rest"
    using drop_ConsD [of pos src w "ws @ c # rest"] by simp_all
  with Cons.IH [of "Suc pos"] Cons.prems show ?case
    by (simp add: SkipBlank.simps [of src pos])
qed

lemma SkipBlank_eof:
  "list_all isSpace (drop pos src) \<Longrightarrow> SkipBlank src pos = Inl ERR_EOF"
proof (induction src pos rule: SkipBlank.induct)
  case (1 src pos)
  show ?case
  proof (cases "length src \<le> pos")
    case True
    then show ?thesis by (simp add: SkipBlank.simps)
  next
    case False
    then have "drop pos src = src ! pos # drop (Suc pos) src"
      by (simp add: Cons_nth_drop_Suc)
    with "1.prems" have "isSpace (src ! pos)" "list_all isSpace (drop (pos + 1) src)" by simp_all
    with False "1.IH" show ?thesis by (simp add: SkipBlank.simps [of src pos])
  qed
qed

lemma isDigit_iff: "isDigit c \<longleftrightarrow> c \<in> set ''0123456789''"
proof -
  let ?n = "of_char c :: nat"
  have "isDigit c \<longleftrightarrow> ?n \<in> {48, 49, 50, 51, 52, 53, 54, 55, 56, 57}"
    unfolding isDigit_def by (simp; arith)
  also have "\<dots> \<longleftrightarrow> ?n \<in> of_char ` set ''0123456789''"
    by simp
  also have "\<dots> \<longleftrightarrow> c \<in> set ''0123456789''"
    by (simp only: inj_image_mem_iff [OF inj_of_char])
  finally show ?thesis .
qed

lemma isNumberStart_iff: "isNumberStart c \<longleftrightarrow> isDigit c \<or> c = CHR ''+'' \<or> c = CHR ''-''"
  by (auto simp: isNumberStart_def isDigit_iff)

subsection \<open>Classification and dispatch\<close>

text \<open>
  C8. \<open>Peek\<close> skips leading whitespace (space, tab, newline, carriage return), returns the
  post-whitespace position (the classified byte \<open>c\<close> is still at that position) and
  classifies the byte there by the fixed table; any other byte gives \<open>Invalid\<close> with the
  negative InvalidChar code, and input that ends while whitespace is skipped gives the
  negative EOF code. The spec's example is the last conjunct.
\<close>

theorem Peek_classifies:
  "(isSpace c \<longleftrightarrow> c \<in> {CHR '' '', CHR 0x09, CHR 0x0A, CHR 0x0D})
   \<and> (drop pos src = ws @ c # rest \<and> list_all isSpace ws \<and> \<not> isSpace c \<longrightarrow>
        src ! (pos + length ws) = c \<and>
        Peek src pos =
          (let p = Inr (pos + length ws) in
           if c = CHR ''{'' then (p, Obj)
           else if c = CHR ''['' then (p, Arr)
           else if c = dquote then (p, String_tok)
           else if isDigit c \<or> c = CHR ''+'' \<or> c = CHR ''-'' then (p, Number)
           else if c = CHR ''n'' then (p, Null)
           else if c = CHR ''t'' then (p, True_tok)
           else if c = CHR ''f'' then (p, False_tok)
           else if c = CHR '','' then (p, Comma)
           else if c = CHR '':'' then (p, Colon)
           else if c = CHR '']'' then (p, EndArr)
           else if c = CHR ''}'' then (p, EndObj)
           else (Inl ERR_INVALID_CHAR, Invalid)))
   \<and> (list_all isSpace (drop pos src) \<longrightarrow> Peek src pos = (Inl ERR_EOF, Invalid))
   \<and> Peek (''   '' @ [CHR 0x0A, CHR 0x09] @ ''[1,2]'') 0 = (Inr 5, Arr)"
proof (intro conjI impI)
  show "isSpace c \<longleftrightarrow> c \<in> {CHR '' '', CHR 0x09, CHR 0x0A, CHR 0x0D}"
    by (auto simp: isSpace_def)
next
  assume a: "drop pos src = ws @ c # rest \<and> list_all isSpace ws \<and> \<not> isSpace c"
  then show "src ! (pos + length ws) = c"
    using drop_append_ConsD [of pos src ws c rest] by simp
next
  assume a: "drop pos src = ws @ c # rest \<and> list_all isSpace ws \<and> \<not> isSpace c"
  then have b: "SkipBlank src pos = Inr (pos + length ws)"
    by (simp add: SkipBlank_drop)
  from a have c: "src ! (pos + length ws) = c"
    using drop_append_ConsD [of pos src ws c rest] by simp
  show "Peek src pos =
          (let p = Inr (pos + length ws) in
           if c = CHR ''{'' then (p, Obj)
           else if c = CHR ''['' then (p, Arr)
           else if c = dquote then (p, String_tok)
           else if isDigit c \<or> c = CHR ''+'' \<or> c = CHR ''-'' then (p, Number)
           else if c = CHR ''n'' then (p, Null)
           else if c = CHR ''t'' then (p, True_tok)
           else if c = CHR ''f'' then (p, False_tok)
           else if c = CHR '','' then (p, Comma)
           else if c = CHR '':'' then (p, Colon)
           else if c = CHR '']'' then (p, EndArr)
           else if c = CHR ''}'' then (p, EndObj)
           else (Inl ERR_INVALID_CHAR, Invalid))"
    unfolding Peek_def b by (auto simp: c Let_def isNumberStart_iff isDigit_iff)
next
  assume "list_all isSpace (drop pos src)"
  then show "Peek src pos = (Inl ERR_EOF, Invalid)"
    by (simp add: Peek_def SkipBlank_eof)
next
  show "Peek (''   '' @ [CHR 0x0A, CHR 0x09] @ ''[1,2]'') 0 = (Inr 5, Arr)"
    by code_simp
qed

theorem Peek_classifies_witness:
  "Peek ''  7'' 0 = (Inr 2, Number) \<and> Peek ''  '' 0 = (Inl ERR_EOF, Invalid)
   \<and> Peek '' x'' 0 = (Inl ERR_INVALID_CHAR, Invalid)"
  using Peek_classifies [of "CHR ''7''" 0 "''  7''" "''  ''" "[]"]
    Peek_classifies [of "CHR ''x''" 0 "''  ''" "[]" "[]"]
    Peek_classifies [of "CHR ''x''" 0 "'' x''" "'' ''" "[]"]
  by (simp add: isSpace_def isDigit_def)

text \<open>
  C10. When the byte at the post-whitespace position is an opening brace (bracket),
  \<open>DecodeValue\<close> returns that position plus one with the Object (Array) tag, whatever
  follows: nothing is balanced or validated. A lone opening brace as the last byte of the
  buffer still gives a \<open>V_OBJECT\<close> state.
\<close>

theorem DecodeValue_open_delimiter:
  "(drop pos src = ws @ CHR ''{'' # rest \<and> list_all isSpace ws \<longrightarrow>
      DecodeValue ParseFloat src pos = (Inr (pos + length ws + 1), JsonState_Vt V_OBJECT))
   \<and> (drop pos src = ws @ CHR ''['' # rest \<and> list_all isSpace ws \<longrightarrow>
      DecodeValue ParseFloat src pos = (Inr (pos + length ws + 1), JsonState_Vt V_ARRAY))
   \<and> DecodeValue ParseFloat ''{'' 0 = (Inr 1, JsonState_Vt V_OBJECT)"
proof (intro conjI impI)
  assume a: "drop pos src = ws @ CHR ''{'' # rest \<and> list_all isSpace ws"
  then have "SkipBlank src pos = Inr (pos + length ws)"
    by (simp add: SkipBlank_drop isSpace_def)
  moreover from a have "src ! (pos + length ws) = CHR ''{''"
    using drop_append_ConsD [of pos src ws "CHR ''{''" rest] by simp
  ultimately show "DecodeValue ParseFloat src pos = (Inr (pos + length ws + 1), JsonState_Vt V_OBJECT)"
    by (simp add: DecodeValue_def)
next
  assume a: "drop pos src = ws @ CHR ''['' # rest \<and> list_all isSpace ws"
  then have "SkipBlank src pos = Inr (pos + length ws)"
    by (simp add: SkipBlank_drop isSpace_def)
  moreover from a have "src ! (pos + length ws) = CHR ''[''"
    using drop_append_ConsD [of pos src ws "CHR ''[''" rest] by simp
  ultimately show "DecodeValue ParseFloat src pos = (Inr (pos + length ws + 1), JsonState_Vt V_ARRAY)"
    by (simp add: DecodeValue_def)
next
  have "SkipBlank ''{'' 0 = Inr 0" by (simp add: SkipBlank.simps isSpace_def)
  then show "DecodeValue ParseFloat ''{'' 0 = (Inr 1, JsonState_Vt V_OBJECT)"
    by (simp add: DecodeValue_def)
qed

theorem DecodeValue_open_delimiter_witness:
  "DecodeValue (\<lambda>s. (0, None)) '' {x'' 0 = (Inr 2, JsonState_Vt V_OBJECT)
   \<and> DecodeValue (\<lambda>s. (0, None)) ''1 [ '' 1 = (Inr 3, JsonState_Vt V_ARRAY)"
  using DecodeValue_open_delimiter [of 0 "'' {x''" "'' ''" "''x''" "\<lambda>s. (0, None)"]
    DecodeValue_open_delimiter [of 1 "''1 [ ''" "'' ''" "'' ''" "\<lambda>s. (0, None)"]
  by (simp add: isSpace_def)

lemma skipNumber_plus:
  assumes "pos < length src" "src ! pos = CHR ''+''"
  shows "skipNumber src pos = Inl ERR_INVALID_CHAR"
  using assms
  by (simp add: skipNumber_def skipNumber_loop.simps [of src pos pos] isDigit_def)

lemma decodeInt64_plus:
  assumes "pos < length src" "src ! pos = CHR ''+''"
  shows "decodeInt64 src pos = (Inl ERR_INVALID_CHAR, 0, Some ErrSyntax)"
  using assms
  by (simp add: decodeInt64_def decodeInt64_loop.simps [of src pos] isDigit_def slice_def
      ParseInt_def)

text \<open>
  C9. For every buffer whose first non-blank byte is a plus sign, \<open>Peek\<close> classifies the
  token as \<open>Number\<close>, yet \<open>SkipValue\<close> and \<open>DecodeValue\<close> both return the InvalidChar
  code: \<open>skipNumber\<close> rejects the leading plus, and \<open>decodeInt64\<close> stops its digit loop at
  once and hands the empty span to \<open>ParseInt\<close>, a syntax error.
\<close>

theorem plus_sign_never_accepted:
  assumes "drop pos src = ws @ CHR ''+'' # rest" and "list_all isSpace ws"
  shows "Peek src pos = (Inr (pos + length ws), Number)
    \<and> SkipValue src pos = (Inl ERR_INVALID_CHAR, int (pos + length ws))
    \<and> DecodeValue ParseFloat src pos = (Inl ERR_INVALID_CHAR, JsonState_Vt (V_ERR ERR_INVALID_CHAR))
    \<and> skipNumber src (pos + length ws) = Inl ERR_INVALID_CHAR
    \<and> decodeInt64_loop src (pos + length ws) = pos + length ws
    \<and> ParseInt (slice src (pos + length ws) (pos + length ws)) = (0, Some ErrSyntax)
    \<and> decodeInt64 src (pos + length ws) = (Inl ERR_INVALID_CHAR, 0, Some ErrSyntax)"
proof -
  let ?p = "pos + length ws"
  have sb: "SkipBlank src pos = Inr ?p"
    using assms by (simp add: SkipBlank_drop isSpace_def)
  have p: "?p < length src" "src ! ?p = CHR ''+''"
    using drop_append_ConsD [OF assms(1)] by simp_all
  have 1: "Peek src pos = (Inr ?p, Number)"
    by (simp add: Peek_def sb p isNumberStart_def)
  have 2: "SkipValue src pos = (Inl ERR_INVALID_CHAR, int ?p)"
    by (simp add: SkipValue_def sb p isNumberStart_def skipNumber_plus)
  have 3: "DecodeValue ParseFloat src pos = (Inl ERR_INVALID_CHAR, JsonState_Vt (V_ERR ERR_INVALID_CHAR))"
    by (simp add: DecodeValue_def sb p isNumberStart_def decodeInt64_plus)
  have 4: "decodeInt64_loop src ?p = ?p"
    using p by (simp add: decodeInt64_loop.simps [of src ?p] isDigit_def)
  have 5: "ParseInt (slice src ?p ?p) = (0, Some ErrSyntax)"
    by (simp add: slice_def ParseInt_def)
  show ?thesis
    using 1 2 3 4 5 skipNumber_plus [OF p] decodeInt64_plus [OF p] by simp
qed

theorem plus_sign_never_accepted_witness:
  "Peek '' +1'' 0 = (Inr 1, Number)
    \<and> SkipValue '' +1'' 0 = (Inl ERR_INVALID_CHAR, 1)
    \<and> DecodeValue (\<lambda>s. (1, None)) '' +1'' 0
        = (Inl ERR_INVALID_CHAR, JsonState_Vt (V_ERR ERR_INVALID_CHAR))"
  using plus_sign_never_accepted [of 0 "'' +1''" "'' ''" "''1''" "\<lambda>s. (1, None)"]
  by (simp add: isSpace_def)

subsection \<open>Integer decoding\<close>


lemma slice_drop: "drop pos src = xs @ rest \<Longrightarrow> slice src pos (pos + length xs) = xs"
  by (simp add: slice_def)

lemma decodeInt64_loop_digits:
  "drop sp src = ds @ rest \<Longrightarrow> list_all isDigit ds \<Longrightarrow> rest = [] \<or> \<not> isDigit (hd rest)
   \<Longrightarrow> decodeInt64_loop src sp = sp + length ds"
proof (induction ds arbitrary: sp)
  case Nil
  show ?case
  proof (cases rest)
    case Nil
    with Cons Nil.prems have "length src \<le> sp" by simp
    then show ?thesis by (simp add: decodeInt64_loop.simps [of src sp])
  next
    case (Cons r rs)
    with Nil.prems have "src ! sp = r" "\<not> isDigit r"
      using drop_ConsD [of sp src r rs] by simp_all
    then show ?thesis by (simp add: decodeInt64_loop.simps [of src sp])
  qed
next
  case (Cons d ds)
  have d: "sp < length src" "src ! sp = d" "drop (Suc sp) src = ds @ rest"
    using Cons.prems(1) drop_ConsD [of sp src d "ds @ rest"] by simp_all
  have "decodeInt64_loop src sp = decodeInt64_loop src (Suc sp)"
    using d Cons.prems(2) by (simp add: decodeInt64_loop.simps [of src sp])
  then show ?case using Cons.IH [OF d(3)] Cons.prems by simp
qed

lemma foldl_digits_mono: "n \<le> foldl (\<lambda>n c. n * 10 + digit_of c) n ds"
proof (induction ds arbitrary: n)
  case Nil
  show ?case by simp
next
  case (Cons d ds)
  have "n \<le> n * 10 + digit_of d" by simp
  also have "\<dots> \<le> foldl (\<lambda>n c. n * 10 + digit_of c) (n * 10 + digit_of d) ds"
    by (rule Cons.IH)
  finally show ?case by simp
qed

lemma ParseUint_loop_digits:
  "list_all isDigit ds \<Longrightarrow> n \<le> maxUint64 \<Longrightarrow>
   ParseUint_loop n ds =
     (let v = foldl (\<lambda>n c. n * 10 + digit_of c) n ds in
      if v > maxUint64 then (maxUint64, Some ErrRange) else (v, None))"
proof (induction ds arbitrary: n)
  case Nil
  then show ?case by simp
next
  case (Cons d ds)
  let ?n1 = "n * 10 + digit_of d"
  have mono: "?n1 \<le> foldl (\<lambda>n c. n * 10 + digit_of c) ?n1 ds"
    by (rule foldl_digits_mono)
  show ?case
  proof (cases "n \<ge> maxUint64 div 10 + 1")
    case True
    then have "?n1 > maxUint64" by (simp add: maxUint64_def)
    with mono True Cons.prems show ?thesis by (simp add: Let_def)
  next
    case False
    show ?thesis
    proof (cases "?n1 > maxUint64")
      case True
      with mono False Cons.prems show ?thesis by (simp add: Let_def)
    next
      case False
      with \<open>\<not> n \<ge> maxUint64 div 10 + 1\<close> Cons.prems Cons.IH [of ?n1] show ?thesis
        by (simp add: Let_def)
    qed
  qed
qed

lemma ParseUint_digits:
  assumes "ds \<noteq> []" "list_all isDigit ds"
  shows "ParseUint ds =
     (if digits_value ds > maxUint64 then (maxUint64, Some ErrRange) else (digits_value ds, None))"
  using assms ParseUint_loop_digits [of ds 0]
  by (simp add: ParseUint_def digits_value_def Let_def maxUint64_def)

lemma isDigit_not_sign: "isDigit c \<Longrightarrow> c \<noteq> CHR ''-'' \<and> c \<noteq> CHR ''+''"
  by (auto simp: isDigit_def)

lemma ParseInt_range_pos:
  assumes "ds \<noteq> []" "list_all isDigit ds" "digits_value ds \<ge> 2 ^ 63"
  shows "snd (ParseInt ds) = Some ErrRange"
proof -
  obtain d ds' where ds: "ds = d # ds'" using assms(1) by (cases ds) auto
  with assms(2) have "isDigit d" by simp
  then have "hd ds \<noteq> CHR ''-''" "hd ds \<noteq> CHR ''+''" using ds isDigit_not_sign by simp_all
  then show ?thesis
    using assms by (simp add: ParseInt_def ParseUint_digits maxUint64_def)
qed

lemma ParseInt_range_neg:
  assumes "ds \<noteq> []" "list_all isDigit ds" "digits_value ds > 2 ^ 63"
  shows "snd (ParseInt (CHR ''-'' # ds)) = Some ErrRange"
  using assms by (simp add: ParseInt_def ParseUint_digits maxUint64_def)

lemma ParseInt_ok_pos:
  assumes "ds \<noteq> []" "list_all isDigit ds" "digits_value ds < 2 ^ 63"
  shows "ParseInt ds = (int (digits_value ds), None)"
proof -
  obtain d ds' where ds: "ds = d # ds'" using assms(1) by (cases ds) auto
  with assms(2) have "isDigit d" by simp
  then have "hd ds \<noteq> CHR ''-''" "hd ds \<noteq> CHR ''+''" using ds isDigit_not_sign by simp_all
  then show ?thesis
    using assms by (simp add: ParseInt_def ParseUint_digits maxUint64_def)
qed

lemma decodeInt64_scan:
  assumes "drop pos src = sign @ ds @ rest" and "sign = [] \<or> sign = ''-''"
    and "ds \<noteq> []" and "list_all isDigit ds" and "rest = [] \<or> \<not> isDigit (hd rest)"
  shows "pos < length src"
    and "(if src ! pos = CHR ''-'' then pos + 1 else pos) = pos + length sign"
    and "pos + length sign < length src"
    and "decodeInt64_loop src (pos + length sign) = pos + length sign + length ds"
    and "slice src pos (pos + length sign + length ds) = sign @ ds"
proof -
  obtain d ds' where ds: "ds = d # ds'" using assms(3) by (cases ds) auto
  with assms(4) have dd: "isDigit d" by simp
  have dr: "drop (pos + length sign) src = ds @ rest"
  proof -
    have "drop (pos + length sign) src = drop (length sign) (drop pos src)"
      by (simp add: add.commute)
    then show ?thesis using assms(1) by simp
  qed
  show 3: "pos + length sign < length src"
    using dr ds drop_ConsD [of "pos + length sign" src d "ds' @ rest"] by simp
  then show "pos < length src" by simp
  show "(if src ! pos = CHR ''-'' then pos + 1 else pos) = pos + length sign"
  proof (cases "sign = []")
    case True
    with dr ds have "src ! pos = d" using drop_ConsD [of pos src d "ds' @ rest"] by simp
    with dd True show ?thesis using isDigit_not_sign by auto
  next
    case False
    with assms(2) have s: "sign = ''-''" by simp
    with assms(1) have "src ! pos = CHR ''-''"
      using drop_ConsD [of pos src "CHR ''-''" "ds @ rest"] by simp
    with s show ?thesis by simp
  qed
  show "decodeInt64_loop src (pos + length sign) = pos + length sign + length ds"
    using decodeInt64_loop_digits [OF dr assms(4) assms(5)] .
  show "slice src pos (pos + length sign + length ds) = sign @ ds"
    using slice_drop [of pos src "sign @ ds" rest] assms(1) by (simp add: add.assoc)
qed

text \<open>
  C4, as amended. When the digit run at \<open>pos\<close> (after an optional minus sign) denotes an
  integer outside the signed 64-bit range and the byte after the run is not a decimal
  point or an exponent marker, \<open>decodeInt64\<close> returns the end offset of the run (not an
  error code), the value 0 and the range error of \<open>ParseInt\<close> as the overflow indicator.
\<close>

theorem decodeInt64_overflow:
  assumes "drop pos src = sign @ ds @ rest" and "sign = [] \<or> sign = ''-''"
    and "ds \<noteq> []" and "list_all isDigit ds" and "rest = [] \<or> \<not> isDigit (hd rest)"
    and "rest = [] \<or> (hd rest \<noteq> CHR ''.'' \<and> hd rest \<noteq> CHR ''e'' \<and> hd rest \<noteq> CHR ''E'')"
    and "(sign = [] \<and> digits_value ds \<ge> 2 ^ 63) \<or> (sign = ''-'' \<and> digits_value ds > 2 ^ 63)"
  shows "decodeInt64 src pos = (Inr (pos + length sign + length ds), 0, Some ErrRange)"
proof -
  let ?e = "pos + length sign + length ds"
  note sc = decodeInt64_scan [OF assms(1-5)]
  have nofmt: "\<not> (?e < length src \<and> (src ! ?e = CHR ''.'' \<or> src ! ?e = CHR ''e'' \<or> src ! ?e = CHR ''E''))"
  proof (cases rest)
    case Nil
    have "length (drop pos src) = length sign + length ds" using assms(1) Nil by simp
    then have "length src \<le> ?e" by simp
    then show ?thesis by simp
  next
    case (Cons r rs)
    have "drop pos src = (sign @ ds) @ r # rs" using assms(1) Cons by simp
    from drop_append_ConsD [OF this] have "src ! ?e = r" by (simp add: add.assoc)
    with assms(6) Cons show ?thesis by simp
  qed
  have pi: "snd (ParseInt (sign @ ds)) = Some ErrRange"
    using assms(7) ParseInt_range_pos [OF assms(3,4)] ParseInt_range_neg [OF assms(3,4)] by auto
  obtain v where "ParseInt (sign @ ds) = (v, Some ErrRange)"
    using pi by (cases "ParseInt (sign @ ds)") auto
  then show ?thesis
    unfolding decodeInt64_def using sc nofmt by (simp add: Let_def)
qed

theorem decodeInt64_overflow_witness:
  "decodeInt64 ''99999999999999999999'' 0 = (Inr 20, 0, Some ErrRange)
   \<and> decodeInt64 ''[-9223372036854775809]'' 1 = (Inr 21, 0, Some ErrRange)"
  using decodeInt64_overflow [of 0 "''99999999999999999999''" "[]" "''99999999999999999999''" "[]"]
    decodeInt64_overflow [of 1 "''[-9223372036854775809]''" "''-''" "''9223372036854775809''" "'']''"]
  by (simp add: isDigit_def digits_value_def digit_of_def)

text \<open>
  The claim without the amendment fails: a digit run out of range that a decimal point
  follows gives the negative InvalidNumberFormat code.
\<close>

theorem decodeInt64_overflow_counterexample:
  "list_all isDigit ''99999999999999999999''
   \<and> digits_value ''99999999999999999999'' \<ge> 2 ^ 63
   \<and> decodeInt64 ''99999999999999999999.5'' 0 = (Inl ERR_INVALID_NUMBER_FMT, 0, None)"
proof -
  have "decodeInt64_loop ''99999999999999999999.5'' 0 = 20"
    using decodeInt64_loop_digits [of 0 "''99999999999999999999.5''" "''99999999999999999999''" "''.5''"]
    by (simp add: isDigit_def)
  then have "decodeInt64 ''99999999999999999999.5'' 0 = (Inl ERR_INVALID_NUMBER_FMT, 0, None)"
    by (simp add: decodeInt64_def)
  then show ?thesis
    by (simp add: isDigit_def digits_value_def digit_of_def)
qed

subsection \<open>Integer first, float on the fallback signal\<close>


lemma decodeInt64_marker:
  assumes "drop pos src = sign @ ds @ c # rest" and "sign = [] \<or> sign = ''-''"
    and "list_all isDigit ds" and "c = CHR ''.'' \<or> c = CHR ''e'' \<or> c = CHR ''E''"
  shows "decodeInt64 src pos = (Inl ERR_INVALID_NUMBER_FMT, 0, None)"
proof -
  have nd: "\<not> isDigit c" using assms(4) by (auto simp: isDigit_def)
  have dr: "drop (pos + length sign) src = ds @ c # rest"
  proof -
    have "drop (pos + length sign) src = drop (length sign) (drop pos src)"
      by (simp add: add.commute)
    then show ?thesis using assms(1) by simp
  qed
  from drop_append_ConsD [OF dr]
  have e: "pos + length sign + length ds < length src" "src ! (pos + length sign + length ds) = c"
    by simp_all
  have lp: "decodeInt64_loop src (pos + length sign) = pos + length sign + length ds"
    using decodeInt64_loop_digits [OF dr assms(3)] nd by simp
  have st: "(if src ! pos = CHR ''-'' then pos + 1 else pos) = pos + length sign"
  proof (cases "sign = []")
    case True
    show ?thesis
    proof (cases ds)
      case Nil
      with True e have "src ! pos = c" by simp
      with assms(4) True show ?thesis by auto
    next
      case (Cons d ds')
      with True dr have "src ! pos = d" using drop_ConsD [of pos src d "ds' @ c # rest"] by simp
      moreover have "isDigit d" using assms(3) Cons by simp
      ultimately show ?thesis using True isDigit_not_sign by auto
    qed
  next
    case False
    with assms(2) have s: "sign = ''-''" by simp
    with assms(1) have "src ! pos = CHR ''-''"
      using drop_ConsD [of pos src "CHR ''-''" "ds @ c # rest"] by simp
    with s show ?thesis by simp
  qed
  have "pos < length src" "pos + length sign < length src" using e by simp_all
  then show ?thesis
    unfolding decodeInt64_def using st lp e assms(4) by (auto simp add: Let_def)
qed

lemma decodeInt64_fmt_only:
  assumes "fst (decodeInt64 src pos) = Inl ERR_INVALID_NUMBER_FMT"
  shows "(let e = decodeInt64_loop src (if src ! pos = CHR ''-'' then pos + 1 else pos) in
          e < length src \<and> (src ! e = CHR ''.'' \<or> src ! e = CHR ''e'' \<or> src ! e = CHR ''E''))"
  using assms unfolding decodeInt64_def Let_def
  by (auto split: if_splits prod.splits option.splits)

lemma DecodeValue_number:
  assumes "SkipBlank src pos = Inr p" and "isNumberStart (src ! p)"
  shows "DecodeValue ParseFloat src pos =
     (case decodeInt64 src p of
        (Inr ret, iv, err) \<Rightarrow> (Inr ret, \<lparr>Vt = V_INTEGER, Dv = 0, Iv = iv, Ep = int p\<rparr>)
      | (Inl e, iv, err) \<Rightarrow>
          if e = ERR_INVALID_NUMBER_FMT then
            (case decodeFloat64 ParseFloat src p of
               (Inr ret, fv, err) \<Rightarrow> (Inr ret, \<lparr>Vt = V_DOUBLE, Dv = fv, Iv = 0, Ep = int p\<rparr>)
             | (Inl e, fv, err) \<Rightarrow> (Inl e, JsonState_Vt (V_ERR e)))
          else (Inl e, JsonState_Vt (V_ERR e)))"
proof -
  have "src ! p \<noteq> CHR ''n''" "src ! p \<noteq> dquote" "src ! p \<noteq> CHR ''{''" "src ! p \<noteq> CHR ''[''"
    "src ! p \<noteq> CHR ''t''" "src ! p \<noteq> CHR ''f''"
    using assms(2) by (auto simp: isNumberStart_def)
  then show ?thesis
    using assms by (simp add: DecodeValue_def Let_def split: prod.splits sum.splits)
qed

lemma DecodeValue_42:
  "DecodeValue ParseFloat ''42'' 0 = (Inr 2, \<lparr>Vt = V_INTEGER, Dv = 0, Iv = 42, Ep = 0\<rparr>)"
proof -
  have sb: "SkipBlank ''42'' 0 = Inr 0" by (simp add: SkipBlank.simps isSpace_def)
  have "ParseInt ''42'' = (42, None)"
    using ParseInt_ok_pos [of "''42''"] by (simp add: isDigit_def digits_value_def digit_of_def)
  moreover have "decodeInt64_loop ''42'' 0 = 2"
    using decodeInt64_loop_digits [of 0 "''42''" "''42''" "[]"] by (simp add: isDigit_def)
  ultimately have "decodeInt64 ''42'' 0 = (Inr 2, 42, None)"
    by (simp add: decodeInt64_def slice_def)
  then show ?thesis
    using DecodeValue_number [OF sb, of ParseFloat] by (simp add: isNumberStart_def)
qed

lemma decodeFloat64_loop_chars:
  "drop sp src = cs @ rest \<Longrightarrow> list_all isNumberChars cs \<Longrightarrow> rest = [] \<or> \<not> isNumberChars (hd rest)
   \<Longrightarrow> decodeFloat64_loop src sp = sp + length cs"
proof (induction cs arbitrary: sp)
  case Nil
  show ?case
  proof (cases rest)
    case Nil
    with Cons Nil.prems have "length src \<le> sp" by simp
    then show ?thesis by (simp add: decodeFloat64_loop.simps [of src sp])
  next
    case (Cons r rs)
    with Nil.prems have "src ! sp = r" "\<not> isNumberChars r"
      using drop_ConsD [of sp src r rs] by simp_all
    then show ?thesis by (simp add: decodeFloat64_loop.simps [of src sp])
  qed
next
  case (Cons d ds)
  have d: "sp < length src" "src ! sp = d" "drop (Suc sp) src = ds @ rest"
    using Cons.prems(1) drop_ConsD [of sp src d "ds @ rest"] by simp_all
  have "decodeFloat64_loop src sp = decodeFloat64_loop src (Suc sp)"
    using d Cons.prems(2) by (simp add: decodeFloat64_loop.simps [of src sp])
  then show ?case using Cons.IH [OF d(3)] Cons.prems by simp
qed

lemma DecodeValue_3_14:
  assumes "ParseFloat ''3.14'' = (x, None)"
  shows "DecodeValue ParseFloat ''3.14'' 0 = (Inr 4, \<lparr>Vt = V_DOUBLE, Dv = x, Iv = 0, Ep = 0\<rparr>)"
proof -
  have sb: "SkipBlank ''3.14'' 0 = Inr 0" by (simp add: SkipBlank.simps isSpace_def)
  have i: "decodeInt64 ''3.14'' 0 = (Inl ERR_INVALID_NUMBER_FMT, 0, None)"
    using decodeInt64_marker [of 0 "''3.14''" "[]" "''3''" "CHR ''.''" "''14''"]
    by (simp add: isDigit_def)
  have "decodeFloat64_loop ''3.14'' 0 = 4"
    using decodeFloat64_loop_chars [of 0 "''3.14''" "''3.14''" "[]"]
    by (simp add: isNumberChars_def isDigit_def)
  then have "decodeFloat64 ParseFloat ''3.14'' 0 = (Inr 4, x, None)"
    using assms by (simp add: decodeFloat64_def slice_def)
  then show ?thesis
    using DecodeValue_number [OF sb, of ParseFloat] i by (simp add: isNumberStart_def)
qed

lemma DecodeValue_literals:
  "DecodeValue ParseFloat ''true'' 0 = (Inr 4, JsonState_Vt V_TRUE)"
  "DecodeValue ParseFloat ''null'' 0 = (Inr 4, JsonState_Vt V_NULL)"
  "DecodeValue ParseFloat ''false'' 0 = (Inr 5, JsonState_Vt V_FALSE)"
proof -
  have "SkipBlank ''true'' 0 = Inr 0" "SkipBlank ''null'' 0 = Inr 0" "SkipBlank ''false'' 0 = Inr 0"
    by (simp_all add: SkipBlank.simps isSpace_def)
  then show "DecodeValue ParseFloat ''true'' 0 = (Inr 4, JsonState_Vt V_TRUE)"
    "DecodeValue ParseFloat ''null'' 0 = (Inr 4, JsonState_Vt V_NULL)"
    "DecodeValue ParseFloat ''false'' 0 = (Inr 5, JsonState_Vt V_FALSE)"
    by (simp_all add: DecodeValue_def decodeTrue_def decodeNull_def decodeFalse_def slice_def)
qed

text \<open>
  C5. When the byte right after the maximal digit run of \<open>decodeInt64\<close> is a decimal
  point or an exponent marker, \<open>decodeInt64\<close> returns the InvalidNumberFormat code (and
  it returns that code in no other case); \<open>DecodeValue\<close> on a number token takes the
  result of \<open>decodeInt64\<close>, and calls \<open>decodeFloat64\<close> at the same position exactly when
  that code came back. So \<open>42\<close> gives an integer state with value 42, \<open>3.14\<close> a double
  state holding the value \<open>ParseFloat\<close> gives for the span \<open>3.14\<close>, and \<open>true\<close>, \<open>null\<close>,
  \<open>false\<close> their literal tags.
\<close>

theorem DecodeValue_int_float_fallback:
  "(drop pos src = sign @ ds @ c # rest \<and> (sign = [] \<or> sign = ''-'') \<and> list_all isDigit ds
      \<and> (c = CHR ''.'' \<or> c = CHR ''e'' \<or> c = CHR ''E'')
      \<longrightarrow> decodeInt64 src pos = (Inl ERR_INVALID_NUMBER_FMT, 0, None))
   \<and> (fst (decodeInt64 src pos) = Inl ERR_INVALID_NUMBER_FMT \<longrightarrow>
        (let e = decodeInt64_loop src (if src ! pos = CHR ''-'' then pos + 1 else pos) in
         e < length src \<and> (src ! e = CHR ''.'' \<or> src ! e = CHR ''e'' \<or> src ! e = CHR ''E'')))
   \<and> (SkipBlank src pos = Inr p \<and> isNumberStart (src ! p) \<longrightarrow>
        DecodeValue ParseFloat src pos =
          (case decodeInt64 src p of
             (Inr ret, iv, err) \<Rightarrow> (Inr ret, \<lparr>Vt = V_INTEGER, Dv = 0, Iv = iv, Ep = int p\<rparr>)
           | (Inl e, iv, err) \<Rightarrow>
               if e = ERR_INVALID_NUMBER_FMT then
                 (case decodeFloat64 ParseFloat src p of
                    (Inr ret, fv, err) \<Rightarrow> (Inr ret, \<lparr>Vt = V_DOUBLE, Dv = fv, Iv = 0, Ep = int p\<rparr>)
                  | (Inl e, fv, err) \<Rightarrow> (Inl e, JsonState_Vt (V_ERR e)))
               else (Inl e, JsonState_Vt (V_ERR e))))
   \<and> DecodeValue ParseFloat ''42'' 0 = (Inr 2, \<lparr>Vt = V_INTEGER, Dv = 0, Iv = 42, Ep = 0\<rparr>)
   \<and> (ParseFloat ''3.14'' = (x, None) \<longrightarrow>
        DecodeValue ParseFloat ''3.14'' 0 = (Inr 4, \<lparr>Vt = V_DOUBLE, Dv = x, Iv = 0, Ep = 0\<rparr>))
   \<and> DecodeValue ParseFloat ''true'' 0 = (Inr 4, JsonState_Vt V_TRUE)
   \<and> DecodeValue ParseFloat ''null'' 0 = (Inr 4, JsonState_Vt V_NULL)
   \<and> DecodeValue ParseFloat ''false'' 0 = (Inr 5, JsonState_Vt V_FALSE)"
  using decodeInt64_marker [of pos src sign ds c rest] decodeInt64_fmt_only [of src pos]
    DecodeValue_number [of src pos p ParseFloat] DecodeValue_42 [of ParseFloat]
    DecodeValue_3_14 [of ParseFloat x] DecodeValue_literals [of ParseFloat]
  by blast

theorem DecodeValue_int_float_fallback_witness:
  "decodeInt64 ''3.14'' 0 = (Inl ERR_INVALID_NUMBER_FMT, 0, None)
   \<and> DecodeValue (\<lambda>s. (157 / 50, None)) ''3.14'' 0
       = (Inr 4, \<lparr>Vt = V_DOUBLE, Dv = 157 / 50, Iv = 0, Ep = 0\<rparr>)
   \<and> DecodeValue (\<lambda>s. (157 / 50, None)) ''42'' 0
       = (Inr 2, \<lparr>Vt = V_INTEGER, Dv = 0, Iv = 42, Ep = 0\<rparr>)"
  using DecodeValue_int_float_fallback
    [of 0 "''3.14''" "[]" "''3''" "CHR ''.''" "''14''" 0 "\<lambda>s. (157 / 50, None)" "157 / 50"]
  by (simp add: isDigit_def)

subsection \<open>Strings, pairs and quoting\<close>

lemma skipString_too_short: "length src \<le> pos + 1 \<Longrightarrow> skipString src pos = (Inl ERR_EOF, -1)"
  by (simp add: skipString_def)

lemma skipString_no_quote:
  "pos + 1 < length src \<Longrightarrow> src ! pos \<noteq> dquote \<Longrightarrow> skipString src pos = (Inl ERR_INVALID_CHAR, -1)"
  by (simp add: skipString_def)

text \<open>
  C2 does not hold of the code. The buffer of four bytes in the first conjunct opens a
  string and never closes it; the loop of \<open>skipString\<close> runs to the end of the buffer and
  leaves with the cursor equal to \<open>se\<close>, which the test \<open>sp > se\<close> lets through: the result
  is the offset 4 with no escape, not the EOF code. The same happens when the last quote
  of the buffer is an escaped one (second conjunct). Only a backslash as the last byte
  moves the cursor past \<open>se\<close> and gives EOF (third conjunct). The other two parts of the
  claim hold (\<open>skipString_too_short\<close>, \<open>skipString_no_quote\<close> and the last two conjuncts).
\<close>

theorem skipString_unterminated:
  "skipString ''\"abc'' 0 = (Inr 4, -1) \<and> length ''\"abc'' = 4 \<and> dquote \<notin> set ''abc''
   \<and> skipString (''\"a'' @ [backslash, dquote]) 0 = (Inr 4, 2)
   \<and> skipString (''\"ab'' @ [backslash]) 0 = (Inl ERR_EOF, -1)
   \<and> skipString ''\"'' 0 = (Inl ERR_EOF, -1)
   \<and> skipString ''abc'' 0 = (Inl ERR_INVALID_CHAR, -1)"
  by code_simp

text \<open>
  C3 does not hold of the code. On the empty input the branch \<open>len(val) == 0\<close> appends the
  closing quote and does not return; the loop is skipped and the last line appends a
  quote again. Three quote bytes are appended, whatever \<open>native.Quote\<close> and the runtime do.
\<close>

theorem quote_empty_input:
  "map_option bytes (quote Quote growslice buf []) = Some (bytes buf @ [dquote, dquote, dquote])"
  by (simp add: quote_def quote_loop.simps append_byte_def Let_def)

lemma skipPair_loop_inquote:
  "drop sp src = body @ rest \<Longrightarrow> list_all (\<lambda>c. c \<noteq> dquote \<and> c \<noteq> backslash) body
   \<Longrightarrow> skipPair_loop src lchar rchar sp nbrace True
       = skipPair_loop src lchar rchar (sp + length body) nbrace True"
proof (induction body arbitrary: sp)
  case Nil
  then show ?case by simp
next
  case (Cons c body)
  have d: "sp < length src" "src ! sp = c" "drop (Suc sp) src = body @ rest"
    using Cons.prems(1) drop_ConsD [of sp src c "body @ rest"] by simp_all
  have "skipPair_loop src lchar rchar sp nbrace True = skipPair_loop src lchar rchar (Suc sp) nbrace True"
    using d Cons.prems(2) by (simp add: skipPair_loop.simps [of src lchar rchar sp])
  also have "\<dots> = skipPair_loop src lchar rchar (Suc sp + length body) nbrace True"
    using Cons.IH [OF d(3)] Cons.prems(2) by simp
  finally show ?case by simp
qed

subsection \<open>Skipping valid JSON values\<close>

lemma drop_shift: "drop pos src = xs @ ys \<Longrightarrow> drop (pos + length xs) src = ys"
proof -
  assume a: "drop pos src = xs @ ys"
  have "drop (pos + length xs) src = drop (length xs) (drop pos src)"
    by (simp add: add.commute)
  with a show ?thesis by simp
qed

lemma drop_length_bound: "drop pos src = x # xs \<Longrightarrow> pos < length src"
  using drop_ConsD by fastforce

lemma decodeNull_ok: "drop pos src = ''null'' @ rest \<Longrightarrow> decodeNull src pos = Inr (pos + 4)"
proof -
  assume a: "drop pos src = ''null'' @ rest"
  have "length (drop pos src) \<ge> 4" using a by simp
  then have "pos + 4 \<le> length src" by simp
  moreover have "slice src pos (pos + 4) = ''null''" using a by (simp add: slice_def)
  ultimately show ?thesis by (simp add: decodeNull_def)
qed

lemma decodeTrue_ok: "drop pos src = ''true'' @ rest \<Longrightarrow> decodeTrue src pos = Inr (pos + 4)"
proof -
  assume a: "drop pos src = ''true'' @ rest"
  have "length (drop pos src) \<ge> 4" using a by simp
  then have "pos + 4 \<le> length src" by simp
  moreover have "slice src pos (pos + 4) = ''true''" using a by (simp add: slice_def)
  ultimately show ?thesis by (simp add: decodeTrue_def)
qed

lemma decodeFalse_ok: "drop pos src = ''false'' @ rest \<Longrightarrow> decodeFalse src pos = Inr (pos + 5)"
proof -
  assume a: "drop pos src = ''false'' @ rest"
  have "length (drop pos src) \<ge> 5" using a by simp
  then have "pos + 5 \<le> length src" by simp
  moreover have "slice src pos (pos + 5) = ''false''" using a by (simp add: slice_def)
  ultimately show ?thesis by (simp add: decodeFalse_def)
qed

subsection \<open>Strings\<close>

lemma isHex_plain: "isHex c \<Longrightarrow> c \<noteq> dquote \<and> c \<noteq> backslash"
  by (auto simp: isHex_def)

lemma skipString_loop_plain:
  "drop sp src = c # rest \<Longrightarrow> c \<noteq> dquote \<Longrightarrow> c \<noteq> backslash
   \<Longrightarrow> skipString_loop src sp ep = skipString_loop src (sp + 1) ep"
  using drop_ConsD [of sp src c rest] by (simp add: skipString_loop.simps [of src sp])

lemma skipString_loop_escape:
  "drop sp src = backslash # rest
   \<Longrightarrow> skipString_loop src sp ep = skipString_loop src (sp + 2) (if ep = -1 then int sp else ep)"
  using drop_ConsD [of sp src backslash rest] by (simp add: skipString_loop.simps [of src sp])

lemma skipString_loop_quote:
  "drop sp src = dquote # rest \<Longrightarrow> skipString_loop src sp ep = (sp + 1, ep)"
  using drop_ConsD [of sp src dquote rest] by (simp add: skipString_loop.simps [of src sp])

lemma skipString_loop_plains:
  "list_all (\<lambda>c. c \<noteq> dquote \<and> c \<noteq> backslash) xs \<Longrightarrow> drop sp src = xs @ rest
   \<Longrightarrow> skipString_loop src sp ep = skipString_loop src (sp + length xs) ep"
proof (induction xs arbitrary: sp)
  case Nil
  show ?case by simp
next
  case (Cons x xs)
  have "skipString_loop src sp ep = skipString_loop src (sp + 1) ep"
    using skipString_loop_plain [of sp src x "xs @ rest" ep] Cons.prems by simp
  moreover have "drop (sp + 1) src = xs @ rest"
    using drop_shift [of sp src "[x]" "xs @ rest"] Cons.prems(2) by simp
  ultimately show ?case using Cons.IH [of "sp + 1"] Cons.prems(1) by simp
qed

lemma skipString_loop_jchar:
  assumes "wf_jchar c" and "drop sp src = render_jchar c @ rest"
  shows "\<exists>ep'. skipString_loop src sp ep = skipString_loop src (sp + length (render_jchar c)) ep'"
proof (cases c)
  case (Plain x)
  then show ?thesis using assms skipString_loop_plain [of sp src x rest ep] by auto
next
  case (Esc e)
  then show ?thesis using assms skipString_loop_escape [of sp src "e # rest" ep] by auto
next
  case (Uni a b c' d)
  with assms have h: "list_all (\<lambda>c. c \<noteq> dquote \<and> c \<noteq> backslash) [a, b, c', d]"
    and dr: "drop sp src = backslash # CHR ''u'' # a # b # c' # d # rest"
    using isHex_plain by simp_all
  let ?ep = "if ep = -1 then int sp else ep"
  have 1: "skipString_loop src sp ep = skipString_loop src (sp + 2) ?ep"
    using skipString_loop_escape [OF dr] .
  have d2: "drop (sp + 2) src = [a, b, c', d] @ rest"
    using drop_shift [of sp src "[backslash, CHR ''u'']" "a # b # c' # d # rest"] dr by simp
  have 2: "skipString_loop src (sp + 2) ?ep = skipString_loop src (sp + 2 + length [a, b, c', d]) ?ep"
    using skipString_loop_plains [OF h d2] .
  have "sp + 2 + length [a, b, c', d] = sp + length (render_jchar c)"
    using Uni by simp
  with 1 2 show ?thesis by metis
qed

lemma skipString_loop_body:
  "list_all wf_jchar cs \<Longrightarrow> drop sp src = concat (map render_jchar cs) @ dquote # rest
   \<Longrightarrow> fst (skipString_loop src sp ep) = sp + length (concat (map render_jchar cs)) + 1"
proof (induction cs arbitrary: sp ep)
  case Nil
  then show ?case using skipString_loop_quote [of sp src rest ep] by simp
next
  case (Cons c cs)
  let ?r = "render_jchar c"
  have dr: "drop sp src = ?r @ (concat (map render_jchar cs) @ dquote # rest)"
    using Cons.prems(2) by simp
  obtain ep' where st: "skipString_loop src sp ep = skipString_loop src (sp + length ?r) ep'"
    using skipString_loop_jchar [of c sp src _ ep] Cons.prems(1) dr by auto
  have "drop (sp + length ?r) src = concat (map render_jchar cs) @ dquote # rest"
    using drop_shift [OF dr] .
  from Cons.IH [OF _ this, of ep'] Cons.prems(1) st show ?case by simp
qed

lemma skipString_ok:
  assumes "list_all wf_jchar cs" and "drop pos src = render_string cs @ rest"
  shows "fst (skipString src pos) = Inr (pos + length (render_string cs))"
proof -
  let ?b = "concat (map render_jchar cs)"
  have dr: "drop pos src = dquote # ?b @ dquote # rest"
    using assms(2) by (simp add: render_string_def)
  have len: "length (drop pos src) = length ?b + 2 + length rest"
    unfolding dr by simp
  then have l2: "pos + length ?b + 2 \<le> length src" by simp
  then have l1: "\<not> length src \<le> pos + 1" by simp
  have q: "src ! pos = dquote" using drop_ConsD [OF dr] by simp
  have "drop (pos + 1) src = ?b @ dquote # rest"
    using drop_shift [of pos src "[dquote]"] dr by simp
  from skipString_loop_body [OF assms(1) this, of "-1"]
  have f: "fst (skipString_loop src (pos + 1) (-1)) = pos + 1 + length ?b + 1" .
  obtain sp ep where lp: "skipString_loop src (pos + 1) (-1) = (sp, ep)"
    by (cases "skipString_loop src (pos + 1) (-1)") auto
  with f have sp: "sp = pos + length ?b + 2" by simp
  show ?thesis
    using l1 l2 q lp sp by (simp add: skipString_def render_string_def)
qed

subsection \<open>Numbers\<close>

lemma isDigit_chars:
  "isDigit c \<Longrightarrow> c \<noteq> CHR ''.'' \<and> c \<noteq> CHR ''e'' \<and> c \<noteq> CHR ''E'' \<and> c \<noteq> CHR ''-'' \<and> c \<noteq> CHR ''+''"
  by (auto simp: isDigit_def)

lemma skipNumber_loop_digit:
  "drop sp src = c # rest \<Longrightarrow> isDigit c
   \<Longrightarrow> skipNumber_loop src ss sp p e l n = skipNumber_loop src ss (sp + 1) p e True False"
  using drop_ConsD [of sp src c rest] by (simp add: skipNumber_loop.simps [of src ss sp])

lemma skipNumber_loop_digits:
  "wf_digits ds \<Longrightarrow> drop sp src = ds @ rest
   \<Longrightarrow> skipNumber_loop src ss sp p e l n = skipNumber_loop src ss (sp + length ds) p e True False"
proof (induction ds arbitrary: sp l n)
  case Nil
  then show ?case by (simp add: wf_digits_def)
next
  case (Cons d ds)
  have dd: "isDigit d" "list_all isDigit ds" using Cons.prems(1) by (simp_all add: wf_digits_def)
  have 1: "skipNumber_loop src ss sp p e l n = skipNumber_loop src ss (sp + 1) p e True False"
    using skipNumber_loop_digit [of sp src d "ds @ rest"] Cons.prems(2) dd by simp
  have dr: "drop (sp + 1) src = ds @ rest"
    using drop_shift [of sp src "[d]" "ds @ rest"] Cons.prems(2) by simp
  show ?case
  proof (cases "ds = []")
    case True
    with 1 show ?thesis by simp
  next
    case False
    with dd have "wf_digits ds" by (simp add: wf_digits_def)
    from Cons.IH [OF this dr, of True False] 1 show ?thesis by simp
  qed
qed

lemma skipNumber_loop_point:
  "drop sp src = CHR ''.'' # rest \<Longrightarrow> sp \<noteq> ss
   \<Longrightarrow> skipNumber_loop src ss sp False e True False = skipNumber_loop src ss (sp + 1) True e False True"
  using drop_ConsD [of sp src "CHR ''.''" rest]
  by (simp add: skipNumber_loop.simps [of src ss sp] isDigit_def)

lemma skipNumber_loop_exponent:
  "drop sp src = c # r # rest \<Longrightarrow> c = CHR ''e'' \<or> c = CHR ''E''
   \<Longrightarrow> skipNumber_loop src ss sp p False True False = skipNumber_loop src ss (sp + 1) p True False False"
proof -
  assume a: "drop sp src = c # r # rest" and c: "c = CHR ''e'' \<or> c = CHR ''E''"
  have "length (drop sp src) \<ge> 2" using a by simp
  then have "sp \<noteq> length src - 1" by simp
  moreover have "sp < length src" "src ! sp = c" using drop_ConsD [OF a] by simp_all
  ultimately show ?thesis
    using c by (auto simp add: skipNumber_loop.simps [of src ss sp] isDigit_def)
qed

lemma skipNumber_loop_sign:
  "drop sp src = c # rest \<Longrightarrow> c = CHR ''-'' \<or> c = CHR ''+''
   \<Longrightarrow> src ! (sp - 1) = CHR ''e'' \<or> src ! (sp - 1) = CHR ''E''
   \<Longrightarrow> skipNumber_loop src ss sp p e l False = skipNumber_loop src ss (sp + 1) p e False True"
  using drop_ConsD [of sp src c rest]
  by (auto simp add: skipNumber_loop.simps [of src ss sp] isDigit_def)

lemma skipNumber_loop_end:
  "drop sp src = rest \<Longrightarrow> rest = [] \<or> \<not> isNumberChars (hd rest)
   \<Longrightarrow> skipNumber_loop src ss sp p e l False = Inr (sp, False)"
proof (cases rest)
  case Nil
  assume "drop sp src = rest"
  with Nil have "length src \<le> sp" by simp
  then show ?thesis by (simp add: skipNumber_loop.simps [of src ss sp])
next
  case (Cons r rs)
  assume "drop sp src = rest" "rest = [] \<or> \<not> isNumberChars (hd rest)"
  with Cons have "sp < length src" "src ! sp = r" "\<not> isNumberChars r"
    using drop_ConsD [of sp src r rs] by simp_all
  then show ?thesis
    by (auto simp add: skipNumber_loop.simps [of src ss sp] isNumberChars_def)
qed

lemma skipNumber_loop_fraction:
  assumes "case fr of None \<Rightarrow> True | Some fs \<Rightarrow> wf_digits fs"
    and "drop sp src = (case fr of None \<Rightarrow> [] | Some fs \<Rightarrow> CHR ''.'' # fs) @ rest"
    and "sp \<noteq> ss"
  shows "\<exists>p. skipNumber_loop src ss sp False False True False
     = skipNumber_loop src ss (sp + length (case fr of None \<Rightarrow> [] | Some fs \<Rightarrow> CHR ''.'' # fs))
         p False True False"
proof (cases fr)
  case None
  then show ?thesis by auto
next
  case (Some fs)
  with assms have w: "wf_digits fs" and dr: "drop sp src = CHR ''.'' # fs @ rest" by simp_all
  have 1: "skipNumber_loop src ss sp False False True False
      = skipNumber_loop src ss (sp + 1) True False False True"
    using skipNumber_loop_point [OF dr assms(3)] .
  have "drop (sp + 1) src = fs @ rest"
    using drop_shift [of sp src "[CHR ''.'']" "fs @ rest"] dr by simp
  from skipNumber_loop_digits [OF w this, of ss True False False True]
  have "skipNumber_loop src ss (sp + 1) True False False True
      = skipNumber_loop src ss (sp + 1 + length fs) True False True False" .
  with 1 Some show ?thesis by (auto simp: add.commute add.left_commute)
qed

lemma skipNumber_loop_exp_part:
  assumes "case ex of None \<Rightarrow> True
          | Some (e, sg, es) \<Rightarrow>
              (e = CHR ''e'' \<or> e = CHR ''E'') \<and> (sg = [] \<or> sg = ''+'' \<or> sg = ''-'')
              \<and> wf_digits es"
    and "drop sp src = (case ex of None \<Rightarrow> [] | Some (e, sg, es) \<Rightarrow> e # sg @ es) @ rest"
  shows "\<exists>x. skipNumber_loop src ss sp p False True False
     = skipNumber_loop src ss (sp + length (case ex of None \<Rightarrow> [] | Some (e, sg, es) \<Rightarrow> e # sg @ es))
         p x True False"
proof (cases ex)
  case None
  then show ?thesis by auto
next
  case (Some t)
  obtain e sg es where t: "t = (e, sg, es)" by (cases t) auto
  with Some assms have e: "e = CHR ''e'' \<or> e = CHR ''E''" and sg: "sg = [] \<or> sg = ''+'' \<or> sg = ''-''"
    and w: "wf_digits es" and dr: "drop sp src = e # sg @ es @ rest" by simp_all
  obtain d es' where es: "es = d # es'" using w by (cases es) (auto simp: wf_digits_def)
  obtain r rs where nx: "sg @ es @ rest = r # rs" using es by (cases sg) auto
  have 1: "skipNumber_loop src ss sp p False True False
      = skipNumber_loop src ss (sp + 1) p True False False"
    using skipNumber_loop_exponent [of sp src e r rs] dr nx e by simp
  have at_e: "src ! sp = e" using drop_ConsD [OF dr] by simp
  have d1: "drop (sp + 1) src = sg @ es @ rest"
    using drop_shift [of sp src "[e]" "sg @ es @ rest"] dr by simp
  have 2: "skipNumber_loop src ss (sp + 1) p True False False
      = skipNumber_loop src ss (sp + 1 + length sg + length es) p True True False"
  proof (cases "sg = []")
    case True
    with d1 skipNumber_loop_digits [OF w, of "sp + 1" src rest ss p True False False]
    show ?thesis by simp
  next
    case False
    with sg obtain s where s: "sg = [s]" "s = CHR ''-'' \<or> s = CHR ''+''" by auto
    have a: "skipNumber_loop src ss (sp + 1) p True False False
        = skipNumber_loop src ss (sp + 1 + 1) p True False True"
      using skipNumber_loop_sign [of "sp + 1" src s "es @ rest" ss p True False] d1 s at_e e
      by simp
    have "drop (sp + 1 + 1) src = es @ rest"
      using drop_shift [of "sp + 1" src "[s]" "es @ rest"] d1 s by simp
    from skipNumber_loop_digits [OF w this, of ss p True False True] a s
    show ?thesis by simp
  qed
  have "sp + 1 + length sg + length es = sp + length (e # sg @ es)" by simp
  with 1 2 Some t show ?thesis by (simp only: option.case prod.case) metis
qed

lemma skipNumber_ok:
  assumes "wf_number n" and "drop pos src = render_number n @ rest"
    and "rest = [] \<or> \<not> isNumberChars (hd rest)"
  shows "skipNumber src pos = Inr (pos + length (render_number n))"
proof -
  obtain neg ds fr ex where n: "n = JNumber neg ds fr ex" by (cases n) auto
  let ?sg = "if neg then ''-'' else []"
  let ?fr = "case fr of None \<Rightarrow> [] | Some fs \<Rightarrow> CHR ''.'' # fs"
  let ?ex = "case ex of None \<Rightarrow> [] | Some (e, sg, es) \<Rightarrow> e # sg @ es"
  let ?ss = "pos + length ?sg"
  have w: "wf_digits ds" and wfr: "case fr of None \<Rightarrow> True | Some fs \<Rightarrow> wf_digits fs"
    and wex: "case ex of None \<Rightarrow> True
          | Some (e, sg, es) \<Rightarrow>
              (e = CHR ''e'' \<or> e = CHR ''E'') \<and> (sg = [] \<or> sg = ''+'' \<or> sg = ''-'')
              \<and> wf_digits es"
    using assms(1) n by simp_all
  have dr: "drop pos src = ?sg @ ds @ ?fr @ ?ex @ rest"
    using assms(2) n by simp
  obtain d ds' where ds: "ds = d # ds'" "isDigit d" using w by (cases ds) (auto simp: wf_digits_def)
  have d0: "drop ?ss src = ds @ ?fr @ ?ex @ rest" using drop_shift [OF dr] .
  have lt: "pos < length src"
    using dr ds drop_length_bound [of pos src] by (cases neg) auto
  have st: "(if src ! pos = CHR ''-'' then pos + 1 else pos) = ?ss"
  proof (cases neg)
    case True
    with dr have "src ! pos = CHR ''-''" using drop_ConsD [of pos src "CHR ''-''"] by simp
    with True show ?thesis by simp
  next
    case False
    with dr ds have "src ! pos = d" using drop_ConsD [of pos src d] by simp
    with False ds(2) isDigit_chars show ?thesis by auto
  qed
  have 1: "skipNumber_loop src ?ss ?ss False False False True
      = skipNumber_loop src ?ss (?ss + length ds) False False True False"
    using skipNumber_loop_digits [OF w d0] .
  have d1: "drop (?ss + length ds) src = ?fr @ ?ex @ rest" using drop_shift [OF d0] .
  have ne: "?ss + length ds \<noteq> ?ss" using ds by simp
  obtain p where 2: "skipNumber_loop src ?ss (?ss + length ds) False False True False
      = skipNumber_loop src ?ss (?ss + length ds + length ?fr) p False True False"
    using skipNumber_loop_fraction [OF wfr d1 ne] by blast
  have d2: "drop (?ss + length ds + length ?fr) src = ?ex @ rest" using drop_shift [OF d1] .
  obtain x where 3: "skipNumber_loop src ?ss (?ss + length ds + length ?fr) p False True False
      = skipNumber_loop src ?ss (?ss + length ds + length ?fr + length ?ex) p x True False"
    using skipNumber_loop_exp_part [OF wex d2] by blast
  have d3: "drop (?ss + length ds + length ?fr + length ?ex) src = rest" using drop_shift [OF d2] .
  have 4: "skipNumber_loop src ?ss (?ss + length ds + length ?fr + length ?ex) p x True False
      = Inr (?ss + length ds + length ?fr + length ?ex, False)"
    using skipNumber_loop_end [OF d3 assms(3)] .
  have len: "?ss + length ds + length ?fr + length ?ex = pos + length (render_number n)"
    using n by simp
  have "skipNumber_loop src ?ss ?ss False False False True = Inr (pos + length (render_number n), False)"
    using 1 2 3 4 len by simp
  then show ?thesis
    using lt st by (simp add: skipNumber_def Let_def del: render_number.simps)
qed

subsection \<open>Pairs\<close>

lemma skipPair_loop_escape:
  "drop sp src = backslash # rest
   \<Longrightarrow> skipPair_loop src l r sp n q = skipPair_loop src l r (sp + 2) n q"
  using drop_ConsD [of sp src backslash rest] by (simp add: skipPair_loop.simps [of src l r sp])

lemma skipPair_loop_quote:
  "drop sp src = dquote # rest
   \<Longrightarrow> skipPair_loop src l r sp n q = skipPair_loop src l r (sp + 1) n (\<not> q)"
  using drop_ConsD [of sp src dquote rest] by (simp add: skipPair_loop.simps [of src l r sp])

lemma skipPair_loop_neutral:
  "drop sp src = c # rest \<Longrightarrow> c \<noteq> backslash \<Longrightarrow> c \<noteq> dquote \<Longrightarrow> c \<noteq> l \<Longrightarrow> c \<noteq> r
   \<Longrightarrow> skipPair_loop src l r sp n q = skipPair_loop src l r (sp + 1) n q"
  using drop_ConsD [of sp src c rest] by (simp add: skipPair_loop.simps [of src l r sp])

lemma skipPair_loop_open:
  "drop sp src = l # rest \<Longrightarrow> brackets l r
   \<Longrightarrow> skipPair_loop src l r sp n False = skipPair_loop src l r (sp + 1) (n + 1) False"
  using drop_ConsD [of sp src l rest]
  by (auto simp add: skipPair_loop.simps [of src l r sp] brackets_def)

lemma skipPair_loop_close:
  "drop sp src = r # rest \<Longrightarrow> brackets l r \<Longrightarrow> n \<noteq> 1
   \<Longrightarrow> skipPair_loop src l r sp n False = skipPair_loop src l r (sp + 1) (n - 1) False"
  using drop_ConsD [of sp src r rest]
  by (auto simp add: skipPair_loop.simps [of src l r sp] brackets_def)

lemma skipPair_loop_last:
  "drop sp src = r # rest \<Longrightarrow> brackets l r
   \<Longrightarrow> skipPair_loop src l r sp 1 False = (sp + 1, 0)"
  using drop_ConsD [of sp src r rest]
  by (auto simp add: skipPair_loop.simps [of src l r sp] brackets_def)

lemma passes_Nil: "passes src l r []"
  by (simp add: passes_def)

lemma passes_append:
  assumes "passes src l r xs" and "passes src l r ys"
  shows "passes src l r (xs @ ys)"
  unfolding passes_def
proof (intro allI impI)
  fix sp rest and n :: int
  assume dr: "drop sp src = (xs @ ys) @ rest" and n: "0 < n"
  then have d1: "drop sp src = xs @ (ys @ rest)" by simp
  have d2: "drop (sp + length xs) src = ys @ rest" using drop_shift [OF d1] .
  have "skipPair_loop src l r sp n False = skipPair_loop src l r (sp + length xs) n False"
    using assms(1) d1 n unfolding passes_def by blast
  also have "\<dots> = skipPair_loop src l r (sp + length xs + length ys) n False"
    using assms(2) d2 n unfolding passes_def by blast
  finally show "skipPair_loop src l r sp n False
      = skipPair_loop src l r (sp + length (xs @ ys)) n False"
    by (simp add: add.assoc)
qed

lemma passes_char:
  assumes "c \<noteq> backslash" "c \<noteq> dquote" "c \<noteq> l" "c \<noteq> r"
  shows "passes src l r [c]"
  unfolding passes_def using assms skipPair_loop_neutral [of _ src c _ l r] by simp

lemma passes_neutral:
  "list_all (\<lambda>c. c \<noteq> backslash \<and> c \<noteq> dquote \<and> c \<noteq> l \<and> c \<noteq> r) xs \<Longrightarrow> passes src l r xs"
proof (induction xs)
  case Nil
  show ?case by (rule passes_Nil)
next
  case (Cons x xs)
  then have "passes src l r [x]" "passes src l r xs" by (simp_all add: passes_char)
  from passes_append [OF this] show ?case by simp
qed

lemma passes_Cons: "passes src l r [c] \<Longrightarrow> passes src l r xs \<Longrightarrow> passes src l r (c # xs)"
  using passes_append [of src l r "[c]" xs] by simp

lemma skipPair_loop_inquote_jchar:
  assumes "wf_jchar c" and "drop sp src = render_jchar c @ rest"
  shows "skipPair_loop src l r sp n True = skipPair_loop src l r (sp + length (render_jchar c)) n True"
proof (cases c)
  case (Plain x)
  with assms skipPair_loop_inquote [of sp src "[x]" rest l r n] show ?thesis by simp
next
  case (Esc e)
  with assms skipPair_loop_escape [of sp src "e # rest" l r n True] show ?thesis by simp
next
  case (Uni a b c' d)
  with assms have h: "list_all (\<lambda>c. c \<noteq> dquote \<and> c \<noteq> backslash) [a, b, c', d]"
    and dr: "drop sp src = backslash # CHR ''u'' # a # b # c' # d # rest"
    using isHex_plain by simp_all
  have 1: "skipPair_loop src l r sp n True = skipPair_loop src l r (sp + 2) n True"
    using skipPair_loop_escape [OF dr] .
  have d2: "drop (sp + 2) src = [a, b, c', d] @ rest"
    using drop_shift [of sp src "[backslash, CHR ''u'']" "a # b # c' # d # rest"] dr by simp
  have 2: "skipPair_loop src l r (sp + 2) n True
      = skipPair_loop src l r (sp + 2 + length [a, b, c', d]) n True"
    using skipPair_loop_inquote [OF d2 h] .
  have "sp + 2 + length [a, b, c', d] = sp + length (render_jchar c)"
    using Uni by simp
  with 1 2 show ?thesis by metis
qed

lemma skipPair_loop_inquote_jchars:
  "list_all wf_jchar cs \<Longrightarrow> drop sp src = concat (map render_jchar cs) @ rest
   \<Longrightarrow> skipPair_loop src l r sp n True
       = skipPair_loop src l r (sp + length (concat (map render_jchar cs))) n True"
proof (induction cs arbitrary: sp)
  case Nil
  show ?case by simp
next
  case (Cons c cs)
  let ?r = "render_jchar c"
  have dr: "drop sp src = ?r @ (concat (map render_jchar cs) @ rest)"
    using Cons.prems(2) by simp
  have 1: "skipPair_loop src l r sp n True = skipPair_loop src l r (sp + length ?r) n True"
    using skipPair_loop_inquote_jchar [OF _ dr] Cons.prems(1) by simp
  have "drop (sp + length ?r) src = concat (map render_jchar cs) @ rest"
    using drop_shift [OF dr] .
  from Cons.IH [OF _ this] Cons.prems(1) 1 show ?case by (simp add: add.assoc)
qed

lemma passes_string:
  assumes "list_all wf_jchar cs"
  shows "passes src l r (render_string cs)"
  unfolding passes_def
proof (intro allI impI)
  fix sp rest and n :: int
  let ?b = "concat (map render_jchar cs)"
  assume "drop sp src = render_string cs @ rest"
  then have dr: "drop sp src = dquote # ?b @ dquote # rest" by (simp add: render_string_def)
  have 1: "skipPair_loop src l r sp n False = skipPair_loop src l r (sp + 1) n True"
    using skipPair_loop_quote [OF dr] by simp
  have d1: "drop (sp + 1) src = ?b @ dquote # rest"
    using drop_shift [of sp src "[dquote]"] dr by simp
  have 2: "skipPair_loop src l r (sp + 1) n True = skipPair_loop src l r (sp + 1 + length ?b) n True"
    using skipPair_loop_inquote_jchars [OF assms d1] .
  have d2: "drop (sp + 1 + length ?b) src = dquote # rest" using drop_shift [OF d1] .
  have 3: "skipPair_loop src l r (sp + 1 + length ?b) n True
      = skipPair_loop src l r (sp + 1 + length ?b + 1) n False"
    using skipPair_loop_quote [OF d2] by simp
  have "sp + 1 + length ?b + 1 = sp + length (render_string cs)"
    by (simp add: render_string_def)
  with 1 2 3 show "skipPair_loop src l r sp n False
      = skipPair_loop src l r (sp + length (render_string cs)) n False"
    by metis
qed

lemma passes_bracket:
  assumes "brackets l r" and "brackets a b" and "passes src l r xs"
  shows "passes src l r (a # xs @ [b])"
proof (cases "a = l")
  case True
  with assms(1,2) have ab: "a = l" "b = r" by (auto simp: brackets_def)
  show ?thesis
    unfolding passes_def
  proof (intro allI impI)
    fix sp rest and n :: int
    assume "drop sp src = (a # xs @ [b]) @ rest" and n: "0 < n"
    then have dr: "drop sp src = l # xs @ r # rest" using ab by simp
    have 1: "skipPair_loop src l r sp n False = skipPair_loop src l r (sp + 1) (n + 1) False"
      using skipPair_loop_open [OF dr assms(1)] .
    have d1: "drop (sp + 1) src = xs @ r # rest"
      using drop_shift [of sp src "[l]"] dr by simp
    have 2: "skipPair_loop src l r (sp + 1) (n + 1) False
        = skipPair_loop src l r (sp + 1 + length xs) (n + 1) False"
      using assms(3) d1 n unfolding passes_def by simp
    have d2: "drop (sp + 1 + length xs) src = r # rest" using drop_shift [OF d1] .
    have 3: "skipPair_loop src l r (sp + 1 + length xs) (n + 1) False
        = skipPair_loop src l r (sp + 1 + length xs + 1) (n + 1 - 1) False"
      using skipPair_loop_close [OF d2 assms(1), of "n + 1"] n by simp
    from 1 2 3 show "skipPair_loop src l r sp n False
        = skipPair_loop src l r (sp + length (a # xs @ [b])) n False"
      by simp
  qed
next
  case False
  with assms(1,2) have "list_all (\<lambda>c. c \<noteq> backslash \<and> c \<noteq> dquote \<and> c \<noteq> l \<and> c \<noteq> r) [a]"
    "list_all (\<lambda>c. c \<noteq> backslash \<and> c \<noteq> dquote \<and> c \<noteq> l \<and> c \<noteq> r) [b]"
    by (auto simp: brackets_def)
  then have "passes src l r [a]" "passes src l r [b]" by (simp_all only: passes_neutral)
  with assms(3) show ?thesis using passes_append passes_Cons by metis
qed

lemma isNumberChars_neutral:
  "brackets l r \<Longrightarrow> isNumberChars c \<Longrightarrow> c \<noteq> backslash \<and> c \<noteq> dquote \<and> c \<noteq> l \<and> c \<noteq> r"
  by (auto simp: brackets_def isNumberChars_def isDigit_def)

lemma isSpace_neutral:
  "brackets l r \<Longrightarrow> isSpace c \<Longrightarrow> c \<noteq> backslash \<and> c \<noteq> dquote \<and> c \<noteq> l \<and> c \<noteq> r"
  by (auto simp: brackets_def isSpace_def)

lemma passes_space:
  assumes "brackets l r" and "list_all isSpace ws"
  shows "passes src l r ws"
proof (rule passes_neutral)
  show "list_all (\<lambda>c. c \<noteq> backslash \<and> c \<noteq> dquote \<and> c \<noteq> l \<and> c \<noteq> r) ws"
    using assms isSpace_neutral [OF assms(1)] by (simp add: list_all_iff)
qed

lemma wf_digits_chars: "wf_digits ds \<Longrightarrow> list_all isNumberChars ds"
  by (simp add: wf_digits_def list_all_iff isNumberChars_def)

lemma render_number_chars:
  assumes "wf_number n"
  shows "list_all isNumberChars (render_number n)"
proof -
  obtain neg ds fr ex where n: "n = JNumber neg ds fr ex" by (cases n) auto
  have 1: "list_all isNumberChars (if neg then ''-'' else [])"
    by (simp add: isNumberChars_def)
  have 2: "list_all isNumberChars ds" using assms n wf_digits_chars by simp
  have 3: "list_all isNumberChars (case fr of None \<Rightarrow> [] | Some fs \<Rightarrow> CHR ''.'' # fs)"
    using assms n wf_digits_chars by (cases fr) (simp_all add: isNumberChars_def)
  have 4: "list_all isNumberChars (case ex of None \<Rightarrow> [] | Some (e, sg, es) \<Rightarrow> e # sg @ es)"
  proof (cases ex)
    case None
    then show ?thesis by simp
  next
    case (Some t)
    obtain e sg es where t: "t = (e, sg, es)" by (cases t) auto
    with Some assms n have "e = CHR ''e'' \<or> e = CHR ''E''" "sg = [] \<or> sg = ''+'' \<or> sg = ''-''"
      "list_all isNumberChars es" using wf_digits_chars by simp_all
    with Some t show ?thesis by (auto simp: isNumberChars_def)
  qed
  from 1 2 3 4 n show ?thesis by simp
qed

lemma passes_number:
  assumes "brackets l r" and "wf_number n"
  shows "passes src l r (render_number n)"
proof (rule passes_neutral)
  show "list_all (\<lambda>c. c \<noteq> backslash \<and> c \<noteq> dquote \<and> c \<noteq> l \<and> c \<noteq> r) (render_number n)"
    using render_number_chars [OF assms(2)] isNumberChars_neutral [OF assms(1)]
    by (simp add: list_all_iff)
qed

lemma passes_literal:
  assumes "brackets l r"
  shows "passes src l r ''null''" and "passes src l r ''true''" and "passes src l r ''false''"
    and "passes src l r '',''" and "passes src l r '':''"
  using assms by (auto intro!: passes_neutral simp: brackets_def)

lemma passes_json:
  fixes v :: json and es :: elements and ms :: members
  assumes b: "brackets l r"
  shows "wf_json v \<Longrightarrow> passes src l r (render_json v)"
    and "wf_elements es \<Longrightarrow> passes src l r (render_elements es)"
    and "wf_members ms \<Longrightarrow> passes src l r (render_members ms)"
proof (induction v and es and ms)
  case JNull
  show ?case using passes_literal [OF b] by simp
next
  case JTrue
  show ?case using passes_literal [OF b] by simp
next
  case JFalse
  show ?case using passes_literal [OF b] by simp
next
  case (JNum n)
  then show ?case using passes_number [OF b] by simp
next
  case (JStr cs)
  then show ?case using passes_string by simp
next
  case (JArr0 ws)
  then have "passes src l r ws" using passes_space [OF b] by simp
  from passes_bracket [OF b _ this, of "CHR ''[''" "CHR '']''"] show ?case
    by (simp add: brackets_def)
next
  case (JArr es)
  then have "passes src l r (render_elements es)" by simp
  from passes_bracket [OF b _ this, of "CHR ''[''" "CHR '']''"] show ?case
    by (simp add: brackets_def)
next
  case (JObj0 ws)
  then have "passes src l r ws" using passes_space [OF b] by simp
  from passes_bracket [OF b _ this, of "CHR ''{''" "CHR ''}''"] show ?case
    by (simp add: brackets_def)
next
  case (JObj ms)
  then have "passes src l r (render_members ms)" by simp
  from passes_bracket [OF b _ this, of "CHR ''{''" "CHR ''}''"] show ?case
    by (simp add: brackets_def)
next
  case (Elem1 w1 v w2)
  then have "passes src l r w1" "passes src l r (render_json v)" "passes src l r w2"
    using passes_space [OF b] by simp_all
  then show ?case by (simp add: passes_append)
next
  case (ElemN w1 v w2 es)
  then have "passes src l r w1" "passes src l r (render_json v)" "passes src l r w2"
    "passes src l r (render_elements es)"
    using passes_space [OF b] by simp_all
  moreover have "passes src l r '',''" using passes_literal [OF b] by simp
  ultimately show ?case by (simp add: passes_append passes_Cons)
next
  case (Mem1 w1 k w2 w3 v w4)
  then have "passes src l r w1" "passes src l r (render_string k)" "passes src l r w2"
    "passes src l r w3" "passes src l r (render_json v)" "passes src l r w4"
    using passes_space [OF b] passes_string by simp_all
  moreover have "passes src l r '':''" using passes_literal [OF b] by simp
  ultimately show ?case by (simp add: passes_append passes_Cons)
next
  case (MemN w1 k w2 w3 v w4 ms)
  then have "passes src l r w1" "passes src l r (render_string k)" "passes src l r w2"
    "passes src l r w3" "passes src l r (render_json v)" "passes src l r w4"
    "passes src l r (render_members ms)"
    using passes_space [OF b] passes_string by simp_all
  moreover have "passes src l r '':''" "passes src l r '',''" using passes_literal [OF b] by simp_all
  ultimately show ?case by (simp add: passes_append passes_Cons)
qed

lemma skipPair_ok:
  assumes "brackets l r" and "passes src l r xs" and "drop pos src = l # xs @ r # rest"
  shows "skipPair src pos l r = Inr (pos + length xs + 2)"
proof -
  have "length (drop pos src) = length xs + 2 + length rest" unfolding assms(3) by simp
  then have l1: "\<not> length src \<le> pos + 1" by simp
  have q: "src ! pos = l" using drop_ConsD [OF assms(3)] by simp
  have d1: "drop (pos + 1) src = xs @ r # rest"
    using drop_shift [of pos src "[l]"] assms(3) by simp
  have 1: "skipPair_loop src l r (pos + 1) 1 False = skipPair_loop src l r (pos + 1 + length xs) 1 False"
    using assms(2) d1 unfolding passes_def by simp
  have d2: "drop (pos + 1 + length xs) src = r # rest" using drop_shift [OF d1] .
  have 2: "skipPair_loop src l r (pos + 1 + length xs) 1 False = (pos + 1 + length xs + 1, 0)"
    using skipPair_loop_last [OF d2 assms(1)] .
  show ?thesis using l1 q 1 2 by (simp add: skipPair_def)
qed

subsection \<open>First bytes of values\<close>

lemma SkipValue_at:
  assumes "list_all isSpace ws" and "drop pos src = ws @ c # xs" and "\<not> isSpace c"
  shows "SkipBlank src pos = Inr (pos + length ws)" and "src ! (pos + length ws) = c"
    and "drop (pos + length ws) src = c # xs"
  using SkipBlank_drop [OF assms(2,1,3)] drop_append_ConsD [OF assms(2)] by simp_all

lemma render_number_first:
  assumes "wf_number n"
  shows "\<exists>c xs. render_number n = c # xs \<and> (c = CHR ''-'' \<or> isDigit c)"
proof -
  obtain neg ds fr ex where n: "n = JNumber neg ds fr ex" by (cases n) auto
  with assms obtain d ds' where "ds = d # ds'" "isDigit d"
    by (cases ds) (auto simp: wf_digits_def)
  with n show ?thesis by (cases neg) auto
qed

lemma number_start:
  assumes "c = CHR ''-'' \<or> isDigit c"
  shows "\<not> isSpace c" and "c \<noteq> CHR ''n''" and "c \<noteq> dquote" and "c \<noteq> CHR ''{''" and "c \<noteq> CHR ''[''"
    and "c \<noteq> CHR ''t''" and "c \<noteq> CHR ''f''" and "isNumberStart c"
  using assms by (auto simp: isNumberStart_iff isSpace_def isDigit_def)

subsection \<open>Balanced pairs\<close>

lemma skipPair_valid:
  assumes "wf_json v" and "brackets l r" and "drop pos src = render_json v @ rest"
    and "hd (render_json v) = l"
  shows "skipPair src pos l r = Inr (pos + length (render_json v))"
proof -
  have l: "l = CHR ''{'' \<or> l = CHR ''[''" using assms(2) by (auto simp: brackets_def)
  show ?thesis
  proof (cases v)
    case JNull
    with assms(4) l show ?thesis by auto
  next
    case JTrue
    with assms(4) l show ?thesis by auto
  next
    case JFalse
    with assms(4) l show ?thesis by auto
  next
    case (JNum n)
    with assms(1) have w: "wf_number n" by simp
    obtain c xs where "render_number n = c # xs" "c = CHR ''-'' \<or> isDigit c"
      using render_number_first [OF w] by blast
    with JNum assms(4) l show ?thesis by (auto simp: isDigit_def)
  next
    case (JStr cs)
    with assms(4) l show ?thesis by (auto simp: render_string_def)
  next
    case (JArr0 ws)
    with assms(2,4) have lr: "l = CHR ''[''" "r = CHR '']''" by (auto simp: brackets_def)
    have "passes src l r ws" using passes_space [OF assms(2)] assms(1) JArr0 by simp
    from skipPair_ok [OF assms(2) this, of pos rest] assms(3) JArr0 lr show ?thesis by simp
  next
    case (JArr es)
    with assms(2,4) have lr: "l = CHR ''[''" "r = CHR '']''" by (auto simp: brackets_def)
    have "passes src l r (render_elements es)" using passes_json(2) [OF assms(2)] assms(1) JArr by simp
    from skipPair_ok [OF assms(2) this, of pos rest] assms(3) JArr lr show ?thesis by simp
  next
    case (JObj0 ws)
    with assms(2,4) have lr: "l = CHR ''{''" "r = CHR ''}''" by (auto simp: brackets_def)
    have "passes src l r ws" using passes_space [OF assms(2)] assms(1) JObj0 by simp
    from skipPair_ok [OF assms(2) this, of pos rest] assms(3) JObj0 lr show ?thesis by simp
  next
    case (JObj ms)
    with assms(2,4) have lr: "l = CHR ''{''" "r = CHR ''}''" by (auto simp: brackets_def)
    have "passes src l r (render_members ms)" using passes_json(3) [OF assms(2)] assms(1) JObj by simp
    from skipPair_ok [OF assms(2) this, of pos rest] assms(3) JObj lr show ?thesis by simp
  qed
qed

lemma skipPair_loop_zero:
  "0 < n \<Longrightarrow> skipPair_loop src l r sp n q = (e, 0)
   \<Longrightarrow> sp < e \<and> e \<le> length src \<and> src ! (e - 1) = r"
proof (induction src l r sp n q rule: skipPair_loop.induct)
  case (1 src lchar rchar sp nbrace inquote)
  show ?case
  proof (cases "sp < length src")
    case False
    with "1.prems" show ?thesis by (simp add: skipPair_loop.simps [of src lchar rchar sp])
  next
    case True
    note lt = True
    let ?c = "src ! sp"
    show ?thesis
    proof (cases "?c = backslash")
      case True
      with lt "1.prems" have "skipPair_loop src lchar rchar (sp + 2) nbrace inquote = (e, 0)"
        by (simp add: skipPair_loop.simps [of src lchar rchar sp])
      from "1.IH"(1) [OF lt refl True "1.prems"(1) this] show ?thesis by simp
    next
      case nb: False
      show ?thesis
      proof (cases "?c = dquote")
        case True
        with lt nb "1.prems" have "skipPair_loop src lchar rchar (sp + 1) nbrace (\<not> inquote) = (e, 0)"
          by (simp add: skipPair_loop.simps [of src lchar rchar sp])
        from "1.IH"(2) [OF lt refl nb True "1.prems"(1) this] show ?thesis by simp
      next
        case nq: False
        show ?thesis
        proof (cases "?c = lchar")
          case True
          let ?n = "if \<not> inquote then nbrace + 1 else nbrace"
          from True lt nb nq "1.prems" have "skipPair_loop src lchar rchar (sp + 1) ?n inquote = (e, 0)"
            by (simp add: skipPair_loop.simps [of src lchar rchar sp])
          moreover have "0 < ?n" using "1.prems"(1) by simp
          ultimately show ?thesis using "1.IH"(3) [OF lt refl nb nq True] by simp
        next
          case nl: False
          show ?thesis
          proof (cases "?c = rchar")
            case True
            note isr = True
            show ?thesis
            proof (cases inquote)
              case True
              with isr lt nb nq nl "1.prems" have "skipPair_loop src lchar rchar (sp + 1) nbrace inquote = (e, 0)"
                by (simp add: skipPair_loop.simps [of src lchar rchar sp])
              from "1.IH"(5) [OF lt refl nb nq nl isr _ "1.prems"(1) this] True show ?thesis by simp
            next
              case niq: False
              show ?thesis
              proof (cases "nbrace - 1 = 0")
                case True
                with niq isr lt nb nq nl "1.prems" have "e = sp + 1"
                  by (simp add: skipPair_loop.simps [of src lchar rchar sp])
                with lt isr show ?thesis by simp
              next
                case False
                with niq isr lt nb nq nl "1.prems" have "skipPair_loop src lchar rchar (sp + 1) (nbrace - 1) inquote = (e, 0)"
                  by (simp add: skipPair_loop.simps [of src lchar rchar sp])
                moreover have "0 < nbrace - 1" using False "1.prems"(1) by simp
                ultimately show ?thesis using "1.IH"(4) [OF lt refl nb nq nl isr niq False] by simp
              qed
            qed
          next
            case False
            with lt nb nq nl "1.prems" have "skipPair_loop src lchar rchar (sp + 1) nbrace inquote = (e, 0)"
              by (simp add: skipPair_loop.simps [of src lchar rchar sp])
            from "1.IH"(6) [OF lt refl nb nq nl False "1.prems"(1) this] show ?thesis by simp
          qed
        qed
      qed
    qed
  qed
qed

lemma skipPair_loop_open_count:
  assumes "brackets l r"
  shows "drop sp src = xs \<Longrightarrow> list_all (\<lambda>c. c \<noteq> dquote \<and> c \<noteq> backslash) xs
   \<Longrightarrow> \<forall>k\<le>length xs. int (count_list (take k xs) r) < n + int (count_list (take k xs) l)
   \<Longrightarrow> snd (skipPair_loop src l r sp n False) \<noteq> 0"
proof (induction xs arbitrary: sp n)
  case Nil
  then have "length src \<le> sp" by simp
  moreover have "0 < n" using Nil.prems(3) by simp
  ultimately show ?case by (simp add: skipPair_loop.simps [of src l r sp])
next
  case (Cons c cs)
  have lr: "l \<noteq> r" "l \<noteq> backslash" "l \<noteq> dquote" "r \<noteq> backslash" "r \<noteq> dquote"
    using assms by (auto simp: brackets_def)
  have d: "sp < length src" "src ! sp = c" "drop (sp + 1) src = cs"
    using drop_ConsD [OF Cons.prems(1)] by simp_all
  have c: "c \<noteq> dquote" "c \<noteq> backslash" and cs: "list_all (\<lambda>c. c \<noteq> dquote \<and> c \<noteq> backslash) cs"
    using Cons.prems(2) by simp_all
  have pre: "\<And>k. k \<le> length cs \<Longrightarrow>
      int (count_list (c # take k cs) r) < n + int (count_list (c # take k cs) l)"
  proof -
    fix k assume "k \<le> length cs"
    then have "Suc k \<le> length (c # cs)" by simp
    with Cons.prems(3) have "int (count_list (take (Suc k) (c # cs)) r)
        < n + int (count_list (take (Suc k) (c # cs)) l)" by blast
    then show "int (count_list (c # take k cs) r) < n + int (count_list (c # take k cs) l)"
      by simp
  qed
  have n0: "0 < n" using Cons.prems(3) by fastforce
  show ?case
  proof (cases "c = l")
    case True
    have "\<forall>k\<le>length cs. int (count_list (take k cs) r) < (n + 1) + int (count_list (take k cs) l)"
    proof (intro allI impI)
      fix k assume "k \<le> length cs"
      from pre [OF this] True lr
      show "int (count_list (take k cs) r) < (n + 1) + int (count_list (take k cs) l)" by simp
    qed
    from Cons.IH [OF d(3) cs this] d c True lr show ?thesis
      by (simp add: skipPair_loop.simps [of src l r sp])
  next
    case nl: False
    show ?thesis
    proof (cases "c = r")
      case True
      have 1: "\<forall>k\<le>length cs. int (count_list (take k cs) r) < (n - 1) + int (count_list (take k cs) l)"
      proof (intro allI impI)
        fix k assume "k \<le> length cs"
        from pre [OF this] True lr
        show "int (count_list (take k cs) r) < (n - 1) + int (count_list (take k cs) l)" by simp
      qed
      then have "n - 1 \<noteq> 0" by fastforce
      with Cons.IH [OF d(3) cs 1] d c True nl lr show ?thesis
        by (simp add: skipPair_loop.simps [of src l r sp])
    next
      case False
      have "\<forall>k\<le>length cs. int (count_list (take k cs) r) < n + int (count_list (take k cs) l)"
      proof (intro allI impI)
        fix k assume "k \<le> length cs"
        from pre [OF this] False nl
        show "int (count_list (take k cs) r) < n + int (count_list (take k cs) l)" by simp
      qed
      from Cons.IH [OF d(3) cs this] d c False nl show ?thesis
        by (simp add: skipPair_loop.simps [of src l r sp])
    qed
  qed
qed

text \<open>
  C6, as amended. \<open>skipPair\<close> ignores delimiter bytes inside quoted string content. It
  skips the object of the spec's example to the offset past its last byte, also when the
  string holds an escaped quote before the brace, and an object whose only closing brace
  lies inside a string is unbalanced. In general: with the in-quote flag set, bytes other
  than a quote and a backslash leave the counter as it is; the loop passes over every
  well-formed quoted string (escapes included) with the counter unchanged; and for every
  valid JSON object or array at \<open>pos\<close>, whatever follows it, the result is the offset just
  past its closing delimiter. When at least one byte follows the opening delimiter at
  \<open>pos\<close> and the counter is not 0 when the scan ends, the result is the InvalidChar code;
  this is so in particular when the bytes after the opening delimiter hold no quote and
  no backslash and no prefix of them has more closing than opening delimiters. A
  successful result is an offset just past a closing delimiter. When no byte follows
  \<open>pos\<close> the result is the EOF code.
\<close>

theorem skipPair_quote_aware:
  "skipPair ''{\"a\":\"}\"}'' 0 (CHR ''{'') (CHR ''}'') = Inr 9
   \<and> skipPair (''{\"a\":\"'' @ [backslash] @ ''\"}\"}'') 0 (CHR ''{'') (CHR ''}'') = Inr 11
   \<and> skipPair ''{\"a\":\"}\"'' 0 (CHR ''{'') (CHR ''}'') = Inl ERR_INVALID_CHAR
   \<and> (drop sp src = body @ rest \<and> list_all (\<lambda>c. c \<noteq> dquote \<and> c \<noteq> backslash) body \<longrightarrow>
        skipPair_loop src lchar rchar sp nbrace True
          = skipPair_loop src lchar rchar (sp + length body) nbrace True)
   \<and> (list_all wf_jchar cs \<and> drop sp src = render_string cs @ rest \<and> 0 < nbrace \<longrightarrow>
        skipPair_loop src lchar rchar sp nbrace False
          = skipPair_loop src lchar rchar (sp + length (render_string cs)) nbrace False)
   \<and> (wf_json v \<and> brackets lchar rchar \<and> hd (render_json v) = lchar
        \<and> drop pos src = render_json v @ rest \<longrightarrow>
        skipPair src pos lchar rchar = Inr (pos + length (render_json v)))
   \<and> (pos + 1 < length src \<and> src ! pos = lchar
        \<and> snd (skipPair_loop src lchar rchar (pos + 1) 1 False) \<noteq> 0 \<longrightarrow>
        skipPair src pos lchar rchar = Inl ERR_INVALID_CHAR)
   \<and> (brackets lchar rchar \<and> pos + 1 < length src \<and> src ! pos = lchar
        \<and> list_all (\<lambda>c. c \<noteq> dquote \<and> c \<noteq> backslash) (drop (pos + 1) src)
        \<and> (\<forall>k\<le>length src - (pos + 1).
              count_list (take k (drop (pos + 1) src)) rchar
                \<le> count_list (take k (drop (pos + 1) src)) lchar) \<longrightarrow>
        skipPair src pos lchar rchar = Inl ERR_INVALID_CHAR)
   \<and> (skipPair src pos lchar rchar = Inr e \<longrightarrow>
        pos + 1 < e \<and> e \<le> length src \<and> src ! (e - 1) = rchar)
   \<and> (length src \<le> pos + 1 \<longrightarrow> skipPair src pos lchar rchar = Inl ERR_EOF)"
proof (intro conjI impI)
  show "skipPair ''{\"a\":\"}\"}'' 0 (CHR ''{'') (CHR ''}'') = Inr 9"
    by code_simp
next
  show "skipPair (''{\"a\":\"'' @ [backslash] @ ''\"}\"}'') 0 (CHR ''{'') (CHR ''}'') = Inr 11"
    by code_simp
next
  show "skipPair ''{\"a\":\"}\"'' 0 (CHR ''{'') (CHR ''}'') = Inl ERR_INVALID_CHAR"
    by code_simp
next
  assume "drop sp src = body @ rest \<and> list_all (\<lambda>c. c \<noteq> dquote \<and> c \<noteq> backslash) body"
  then show "skipPair_loop src lchar rchar sp nbrace True
          = skipPair_loop src lchar rchar (sp + length body) nbrace True"
    using skipPair_loop_inquote by blast
next
  assume "list_all wf_jchar cs \<and> drop sp src = render_string cs @ rest \<and> 0 < nbrace"
  then show "skipPair_loop src lchar rchar sp nbrace False
          = skipPair_loop src lchar rchar (sp + length (render_string cs)) nbrace False"
    using passes_string [of cs src lchar rchar] unfolding passes_def by blast
next
  assume "wf_json v \<and> brackets lchar rchar \<and> hd (render_json v) = lchar
        \<and> drop pos src = render_json v @ rest"
  then show "skipPair src pos lchar rchar = Inr (pos + length (render_json v))"
    using skipPair_valid [of v lchar rchar pos src rest] by blast
next
  assume "pos + 1 < length src \<and> src ! pos = lchar
        \<and> snd (skipPair_loop src lchar rchar (pos + 1) 1 False) \<noteq> 0"
  then show "skipPair src pos lchar rchar = Inl ERR_INVALID_CHAR"
    by (cases "skipPair_loop src lchar rchar (pos + 1) 1 False") (simp add: skipPair_def)
next
  let ?xs = "drop (pos + 1) src"
  assume a: "brackets lchar rchar \<and> pos + 1 < length src \<and> src ! pos = lchar
        \<and> list_all (\<lambda>c. c \<noteq> dquote \<and> c \<noteq> backslash) ?xs
        \<and> (\<forall>k\<le>length src - (pos + 1).
              count_list (take k ?xs) rchar \<le> count_list (take k ?xs) lchar)"
  then have "\<forall>k\<le>length ?xs. int (count_list (take k ?xs) rchar)
      < 1 + int (count_list (take k ?xs) lchar)"
    by fastforce
  with a have "snd (skipPair_loop src lchar rchar (pos + 1) 1 False) \<noteq> 0"
    using skipPair_loop_open_count [of lchar rchar "pos + 1" src ?xs 1] by blast
  with a show "skipPair src pos lchar rchar = Inl ERR_INVALID_CHAR"
    by (cases "skipPair_loop src lchar rchar (pos + 1) 1 False") (simp add: skipPair_def)
next
  assume a: "skipPair src pos lchar rchar = Inr e"
  obtain sp' n where lp: "skipPair_loop src lchar rchar (pos + 1) 1 False = (sp', n)"
    by (cases "skipPair_loop src lchar rchar (pos + 1) 1 False") auto
  with a have "n = 0" "sp' = e"
    by (auto simp: skipPair_def split: if_splits)
  with lp skipPair_loop_zero [of 1 src lchar rchar "pos + 1" False e]
  have z: "pos + 1 < e \<and> e \<le> length src \<and> src ! (e - 1) = rchar" by simp
  then show "pos + 1 < e" and "e \<le> length src" and "src ! (e - 1) = rchar" by simp_all
next
  assume "length src \<le> pos + 1"
  then show "skipPair src pos lchar rchar = Inl ERR_EOF"
    by (simp add: skipPair_def)
qed

theorem skipPair_quote_aware_witness:
  "skipPair_loop ''{\"}{\"'' (CHR ''{'') (CHR ''}'') 2 1 True
     = skipPair_loop ''{\"}{\"'' (CHR ''{'') (CHR ''}'') 4 1 True
   \<and> skipPair_loop (''\"}'' @ [backslash] @ ''\"\"x'') (CHR ''{'') (CHR ''}'') 0 1 False
     = skipPair_loop (''\"}'' @ [backslash] @ ''\"\"x'') (CHR ''{'') (CHR ''}'') 5 1 False
   \<and> skipPair (''{\"a\":\"'' @ [backslash] @ ''\"}\"},1'') 0 (CHR ''{'') (CHR ''}'') = Inr 11
   \<and> skipPair ''[[1]'' 0 (CHR ''['') (CHR '']'') = Inl ERR_INVALID_CHAR
   \<and> skipPair ''[1,['' 3 (CHR ''['') (CHR '']'') = Inl ERR_EOF"
proof -
  have 1: "snd (skipPair_loop ''[[1]'' (CHR ''['') (CHR '']'') (0 + 1) 1 False) \<noteq> 0"
    by code_simp
  have 2: "\<forall>k\<le>length ''[[1]'' - (0 + 1).
      count_list (take k (drop (0 + 1) ''[[1]'')) (CHR '']'')
        \<le> count_list (take k (drop (0 + 1) ''[[1]'')) (CHR ''['')"
    by (auto simp: le_Suc_eq numeral_3_eq_3)
  have a: "skipPair_loop ''{\"}{\"'' (CHR ''{'') (CHR ''}'') 2 1 True
     = skipPair_loop ''{\"}{\"'' (CHR ''{'') (CHR ''}'') 4 1 True
     \<and> skipPair ''[1,['' 3 (CHR ''['') (CHR '']'') = Inl ERR_EOF"
    using skipPair_quote_aware [where sp = 2 and src = "''{\"}{\"''" and body = "''}{''"
        and rest = "[dquote]" and lchar = "CHR ''{''" and rchar = "CHR ''}''" and nbrace = 1
        and pos = 4]
      skipPair_quote_aware [where src = "''[1,[''" and lchar = "CHR ''[''" and rchar = "CHR '']''"
        and pos = 3]
    by simp
  have b: "skipPair_loop (''\"}'' @ [backslash] @ ''\"\"x'') (CHR ''{'') (CHR ''}'') 0 1 False
     = skipPair_loop (''\"}'' @ [backslash] @ ''\"\"x'') (CHR ''{'') (CHR ''}'') 5 1 False"
    using skipPair_quote_aware [where sp = 0 and src = "''\"}'' @ [backslash] @ ''\"\"x''"
        and cs = "[Plain (CHR ''}''), Esc dquote]" and rest = "''x''"
        and lchar = "CHR ''{''" and rchar = "CHR ''}''" and nbrace = 1]
    by (simp add: render_string_def eval_nat_numeral)
  have c: "skipPair (''{\"a\":\"'' @ [backslash] @ ''\"}\"},1'') 0 (CHR ''{'') (CHR ''}'') = Inr 11"
    using skipPair_quote_aware [where pos = 0 and src = "''{\"a\":\"'' @ [backslash] @ ''\"}\"},1''"
        and v = "JObj (Mem1 [] [Plain (CHR ''a'')] [] [] (JStr [Esc dquote, Plain (CHR ''}'')]) [])"
        and rest = "'',1''" and lchar = "CHR ''{''" and rchar = "CHR ''}''"]
    by (simp add: render_string_def brackets_def)
  have d: "skipPair ''[[1]'' 0 (CHR ''['') (CHR '']'') = Inl ERR_INVALID_CHAR"
    using skipPair_quote_aware [where src = "''[[1]''" and lchar = "CHR ''[''" and rchar = "CHR '']''"
        and pos = 0] 1 2
    by (simp add: brackets_def)
  from a b c d show ?thesis by simp
qed

text \<open>
  The claim without the amendment fails: an opening delimiter that is the last byte of
  the buffer is unbalanced (the scan from the byte after it ends at once, the counter
  still 1), and the result is the EOF code, not InvalidChar.
\<close>

theorem skipPair_lone_open_counterexample:
  "snd (skipPair_loop ''{'' (CHR ''{'') (CHR ''}'') 1 1 False) \<noteq> 0
   \<and> skipPair ''{'' 0 (CHR ''{'') (CHR ''}'') = Inl ERR_EOF
   \<and> skipPair ''{'' 0 (CHR ''{'') (CHR ''}'') \<noteq> Inl ERR_INVALID_CHAR"
  by code_simp

subsection \<open>The value dispatcher\<close>

text \<open>
  C1. For every syntactically valid JSON value \<open>v\<close> whose text \<open>render_json v\<close> lies in
  the buffer at offset \<open>pos\<close> after optional whitespace \<open>ws\<close>, \<open>SkipValue\<close> returns the
  end offset \<open>e\<close> (a non-negative offset, not an error code) and the post-whitespace start
  offset \<open>s\<close>, and \<open>src[s:e]\<close> is exactly the text of the value: nothing of what follows
  is consumed. A number is delimited by its context (\<open>value_ends\<close>): the byte after it, if
  there is one, is not a byte numbers are written with.
\<close>

theorem SkipValue_valid_json:
  assumes "wf_json v" and "list_all isSpace ws" and "drop pos src = ws @ render_json v @ rest"
    and "value_ends v rest"
  shows "SkipValue src pos
           = (Inr (pos + length ws + length (render_json v)), int (pos + length ws))
         \<and> slice src (pos + length ws) (pos + length ws + length (render_json v)) = render_json v"
proof
  let ?p = "pos + length ws"
  have dp: "drop ?p src = render_json v @ rest" using drop_shift [OF assms(3)] .
  show "slice src ?p (?p + length (render_json v)) = render_json v"
    using slice_drop [OF dp] .
  show "SkipValue src pos = (Inr (?p + length (render_json v)), int ?p)"
  proof (cases v)
    case JNull
    with assms(3) have "drop pos src = ws @ CHR ''n'' # ''ull'' @ rest" by simp
    from SkipValue_at [OF assms(2) this] have "SkipBlank src pos = Inr ?p" "src ! ?p = CHR ''n''"
      by (simp_all add: isSpace_def)
    moreover have "decodeNull src ?p = Inr (?p + 4)" using decodeNull_ok [of ?p src rest] dp JNull by simp
    ultimately show ?thesis using JNull by (simp add: SkipValue_def)
  next
    case JTrue
    with assms(3) have "drop pos src = ws @ CHR ''t'' # ''rue'' @ rest" by simp
    from SkipValue_at [OF assms(2) this] have "SkipBlank src pos = Inr ?p" "src ! ?p = CHR ''t''"
      by (simp_all add: isSpace_def)
    moreover have "decodeTrue src ?p = Inr (?p + 4)" using decodeTrue_ok [of ?p src rest] dp JTrue by simp
    ultimately show ?thesis using JTrue by (simp add: SkipValue_def)
  next
    case JFalse
    with assms(3) have "drop pos src = ws @ CHR ''f'' # ''alse'' @ rest" by simp
    from SkipValue_at [OF assms(2) this] have "SkipBlank src pos = Inr ?p" "src ! ?p = CHR ''f''"
      by (simp_all add: isSpace_def)
    moreover have "decodeFalse src ?p = Inr (?p + 5)" using decodeFalse_ok [of ?p src rest] dp JFalse by simp
    ultimately show ?thesis using JFalse by (simp add: SkipValue_def)
  next
    case (JNum n)
    with assms have w: "wf_number n" and e: "rest = [] \<or> \<not> isNumberChars (hd rest)" by simp_all
    obtain c xs where c: "render_number n = c # xs" "c = CHR ''-'' \<or> isDigit c"
      using render_number_first [OF w] by blast
    note ns = number_start [OF c(2)]
    have "drop pos src = ws @ c # xs @ rest" using assms(3) JNum c by simp
    from SkipValue_at [OF assms(2) this ns(1)] have "SkipBlank src pos = Inr ?p" "src ! ?p = c"
      by simp_all
    moreover have "skipNumber src ?p = Inr (?p + length (render_number n))"
      using skipNumber_ok [OF w _ e, of ?p src] dp JNum by simp
    ultimately show ?thesis using JNum ns by (simp add: SkipValue_def del: render_number.simps)
  next
    case (JStr cs)
    with assms have w: "list_all wf_jchar cs" by simp
    have "drop pos src = ws @ dquote # concat (map render_jchar cs) @ [dquote] @ rest"
      using assms(3) JStr by (simp add: render_string_def)
    from SkipValue_at [OF assms(2) this] have "SkipBlank src pos = Inr ?p" "src ! ?p = dquote"
      by (simp_all add: isSpace_def)
    moreover have "fst (skipString src ?p) = Inr (?p + length (render_string cs))"
      using skipString_ok [OF w, of ?p src rest] dp JStr by simp
    ultimately show ?thesis using JStr by (simp add: SkipValue_def)
  next
    case (JArr0 ws')
    with assms have w: "list_all isSpace ws'" by simp
    have b: "brackets (CHR ''['') (CHR '']'')" by (simp add: brackets_def)
    have "drop pos src = ws @ CHR ''['' # ws' @ '']'' @ rest" using assms(3) JArr0 by simp
    from SkipValue_at [OF assms(2) this] have "SkipBlank src pos = Inr ?p" "src ! ?p = CHR ''[''"
      and d: "drop ?p src = CHR ''['' # ws' @ CHR '']'' # rest"
      by (simp_all add: isSpace_def)
    moreover have "skipPair src ?p (CHR ''['') (CHR '']'') = Inr (?p + length ws' + 2)"
      using skipPair_ok [OF b passes_space [OF b w] d] .
    ultimately show ?thesis using JArr0 by (simp add: SkipValue_def)
  next
    case (JArr es)
    with assms have w: "wf_elements es" by simp
    have b: "brackets (CHR ''['') (CHR '']'')" by (simp add: brackets_def)
    have "drop pos src = ws @ CHR ''['' # render_elements es @ '']'' @ rest" using assms(3) JArr by simp
    from SkipValue_at [OF assms(2) this] have "SkipBlank src pos = Inr ?p" "src ! ?p = CHR ''[''"
      and d: "drop ?p src = CHR ''['' # render_elements es @ CHR '']'' # rest"
      by (simp_all add: isSpace_def)
    moreover have "skipPair src ?p (CHR ''['') (CHR '']'') = Inr (?p + length (render_elements es) + 2)"
      using skipPair_ok [OF b passes_json(2) [OF b w] d] .
    ultimately show ?thesis using JArr by (simp add: SkipValue_def)
  next
    case (JObj0 ws')
    with assms have w: "list_all isSpace ws'" by simp
    have b: "brackets (CHR ''{'') (CHR ''}'')" by (simp add: brackets_def)
    have "drop pos src = ws @ CHR ''{'' # ws' @ ''}'' @ rest" using assms(3) JObj0 by simp
    from SkipValue_at [OF assms(2) this] have "SkipBlank src pos = Inr ?p" "src ! ?p = CHR ''{''"
      and d: "drop ?p src = CHR ''{'' # ws' @ CHR ''}'' # rest"
      by (simp_all add: isSpace_def)
    moreover have "skipPair src ?p (CHR ''{'') (CHR ''}'') = Inr (?p + length ws' + 2)"
      using skipPair_ok [OF b passes_space [OF b w] d] .
    ultimately show ?thesis using JObj0 by (simp add: SkipValue_def)
  next
    case (JObj ms)
    with assms have w: "wf_members ms" by simp
    have b: "brackets (CHR ''{'') (CHR ''}'')" by (simp add: brackets_def)
    have "drop pos src = ws @ CHR ''{'' # render_members ms @ ''}'' @ rest" using assms(3) JObj by simp
    from SkipValue_at [OF assms(2) this] have "SkipBlank src pos = Inr ?p" "src ! ?p = CHR ''{''"
      and d: "drop ?p src = CHR ''{'' # render_members ms @ CHR ''}'' # rest"
      by (simp_all add: isSpace_def)
    moreover have "skipPair src ?p (CHR ''{'') (CHR ''}'') = Inr (?p + length (render_members ms) + 2)"
      using skipPair_ok [OF b passes_json(3) [OF b w] d] .
    ultimately show ?thesis using JObj by (simp add: SkipValue_def)
  qed
qed

theorem SkipValue_valid_json_witness:
  "SkipValue (''  {\"a\":[1,true,\"}'' @ [backslash] @ ''\"\"], \"b\":-1.5e+3} ,7'') 0 = (Inr 35, 2)
   \<and> slice (''  {\"a\":[1,true,\"}'' @ [backslash] @ ''\"\"], \"b\":-1.5e+3} ,7'') 2 35
       = ''{\"a\":[1,true,\"}'' @ [backslash] @ ''\"\"], \"b\":-1.5e+3}''
   \<and> SkipValue ''[ 12.5E-3]'' 1 = (Inr 9, 2)"
  using SkipValue_valid_json [of "JNum (JNumber False ''12'' (Some ''5'') (Some (CHR ''E'', ''-'', ''3'')))"
      "'' ''" 1 "''[ 12.5E-3]''" "'']''"]
    SkipValue_valid_json [of
      "JObj (MemN [] [Plain (CHR ''a'')] [] []
          (JArr (ElemN [] (JNum (JNumber False ''1'' None None)) []
                (ElemN [] JTrue []
                (Elem1 [] (JStr [Plain (CHR ''}''), Esc dquote]) [])))) []
        (Mem1 '' '' [Plain (CHR ''b'')] [] []
          (JNum (JNumber True ''1'' (Some ''5'') (Some (CHR ''e'', ''+'', ''3'')))) []))"
      "''  ''" 0
      "''  {\"a\":[1,true,\"}'' @ [backslash] @ ''\"\"], \"b\":-1.5e+3} ,7''"
      "'' ,7''"]
  by (simp add: render_string_def wf_digits_def isDigit_def isSpace_def slice_def
      isNumberChars_def)

end
